theory Spec2Isabelle
  imports Complex_Main "HOL-Library.Multiset"
begin

section \<open>Machine integers\<close>

text \<open>
  Node identifiers, \<open>root_idx\<close> and \<open>_num_leaf_nodes\<close> are \<open>uint32_t\<close>; container sizes and
  the running \<open>id\<close> of \<open>build_tree\<close> are \<open>size_t\<close>. Values are modelled as \<open>nat\<close>;
  \<open>u32\<close> is the conversion \<open>size_t \<rightarrow> uint32_t\<close>, written at every place where the source
  converts. A leaf count handed to \<open>build_tree\<close> is a \<open>uint32_t\<close>, that is, below \<open>2^32\<close>.
\<close>

definition u32 :: "nat \<Rightarrow> nat" where
  "u32 n = n mod 4294967296"

definition INT_MAX :: nat where
  "INT_MAX = 2147483647"

section \<open>Tree nodes and the tree\<close>

text \<open>\<open>struct tree_node\<close>; the field \<open>id\<close> is named \<open>node_id\<close> here (after the constructor's
  parameter), since \<open>id\<close> is the identity function of HOL.\<close>

record tree_node =
  node_id :: nat
  left_id :: nat
  right_id :: nat
  is_leaf :: bool

text \<open>The constructor \<open>tree_node(uint32_t node_id, uint32_t left_node_id, uint32_t right_node_id,
  bool is_leaf)\<close>: its integer parameters are 32 bits wide.\<close>

definition mk_tree_node :: "nat \<Rightarrow> nat \<Rightarrow> nat \<Rightarrow> bool \<Rightarrow> tree_node" where
  "mk_tree_node i l r lf =
     \<lparr>node_id = u32 i, left_id = u32 l, right_id = u32 r, is_leaf = lf\<rparr>"

text \<open>\<open>struct min_depth_binary_tree\<close>: \<open>num_leaf_nodes\<close> is \<open>_num_leaf_nodes\<close>, \<open>initialized\<close>
  is \<open>_initialized\<close>.\<close>

record min_depth_binary_tree =
  nodes :: "tree_node list"
  root_idx :: nat
  num_leaf_nodes :: nat
  initialized :: bool

text \<open>A default-constructed tree.\<close>

definition fresh_tree :: min_depth_binary_tree where
  "fresh_tree = \<lparr>nodes = [], root_idx = 0, num_leaf_nodes = 0, initialized = False\<rparr>"

text \<open>The exceptions of this file, all thrown by \<open>THROW\<close>: the mismatch of leaf counts (with the
  requested and the current count of the message), the failed allocation (with the label count of
  the message), and the unimplemented \<open>learn\<close>.\<close>

datatype error = ConfigurationConflict nat nat | OutOfMemory nat | NotImplemented

section \<open>build_tree\<close>

text \<open>
  Storage is requested by the calls of \<open>reserve\<close>: first for \<open>nodes\<close>, then for
  \<open>tournaments\<close>, then once per round of the \<open>while\<close> loop for \<open>new_tournaments\<close>. The
  environment decides which request fails: \<open>mem i\<close> says that the \<open>i\<close>-th request of a call
  (counted from 0) is granted. A refused request is the \<open>std::bad_alloc\<close> that the \<open>catch\<close>
  clause turns into the error. An \<open>emplace_back\<close> within reserved capacity requests nothing;
  one beyond it (on a tree whose \<open>nodes\<close> a failed call has left filled, or where
  \<open>2 * _num_leaf_nodes - 1\<close> has wrapped around in \<open>uint32_t\<close>, above \<open>2^31\<close> leaves)
  requests storage that is taken as granted.
\<close>

type_synonym alloc = "nat \<Rightarrow> bool"

text \<open>\<open>for (uint32_t i = 0; i < _num_leaf_nodes; i++)\<close>: one leaf node and one tournament
  entry per leaf.\<close>

definition add_leaf_nodes ::
  "nat \<Rightarrow> tree_node list \<times> nat list \<Rightarrow> tree_node list \<times> nat list" where
  "add_leaf_nodes k =
     fold (\<lambda>i (ns, ts). (ns @ [mk_tree_node i 0 0 True], ts @ [i])) [0..<k]"

text \<open>\<open>for (size_t j = 0; j < num_tournaments / 2; ++j)\<close>: the state is the running \<open>id\<close>
  (a \<open>size_t\<close>), \<open>nodes\<close> and \<open>new_tournaments\<close> (a vector of \<open>uint32_t\<close>). The indices
  \<open>2 * j\<close> and \<open>2 * j + 1\<close> are below \<open>num_tournaments\<close>.\<close>

definition pair_tournaments ::
  "nat list \<Rightarrow> nat \<times> tree_node list \<times> nat list \<Rightarrow> nat \<times> tree_node list \<times> nat list" where
  "pair_tournaments ts =
     fold (\<lambda>j (idn, ns, nts).
             (let left = ts ! (2 * j); right = ts ! (2 * j + 1)
              in (idn + 1, ns @ [mk_tree_node idn left right False], nts @ [u32 idn])))
          [0..<length ts div 2]"

text \<open>\<open>while (tournaments.size() > 1)\<close>; \<open>r\<close> counts the storage requests of the call. The
  result is whether the loop ended without \<open>bad_alloc\<close>, with \<open>nodes\<close> and \<open>tournaments\<close> as
  they are at that moment.\<close>

function tournament_rounds ::
  "alloc \<Rightarrow> nat \<Rightarrow> tree_node list \<Rightarrow> nat list \<Rightarrow> bool \<times> tree_node list \<times> nat list" where
  "tournament_rounds mem r ns ts =
     (if 1 < length ts then
        (if mem r then
           (case pair_tournaments ts (length ns, ns, []) of
              (idn, ns', nts) \<Rightarrow>
                tournament_rounds mem (r + 1) ns'
                  (if length ts mod 2 = 1 then nts @ [last ts] else nts))
         else (False, ns, ts))
      else (True, ns, ts))"
  by pat_completeness auto
termination
proof (relation "measure (\<lambda>(mem, r, ns, ts). length ts)")
  show "wf (measure (\<lambda>(mem :: alloc, r :: nat, ns :: tree_node list, ts :: nat list). length ts))"
    by simp
next
  fix mem :: alloc and r :: nat and ns :: "tree_node list" and ts :: "nat list"
    and idn :: nat and y :: "tree_node list \<times> nat list"
    and ns' :: "tree_node list" and nts :: "nat list"
  assume big: "1 < length ts" and "mem r"
    and x: "(idn, y) = pair_tournaments ts (length ns, ns, [])"
    and y: "(ns', nts) = y"
  have len: "length (snd (snd (fold (\<lambda>j (idn, ns, nts).
             (let left = ts ! (2 * j); right = ts ! (2 * j + 1)
              in (idn + 1, ns @ [mk_tree_node idn left right False], nts @ [u32 idn])))
          [0..<m] acc))) = length (snd (snd acc)) + m" for m acc
    by (induction m) (simp_all add: case_prod_beta Let_def)
  have "nts = snd (snd (pair_tournaments ts (length ns, ns, [])))"
    using x y by (metis snd_conv)
  then have "length nts = length ts div 2"
    using len [of "length ts div 2" "(length ns, ns, [])"]
    by (simp add: pair_tournaments_def)
  with big show "((mem, r + 1, ns', if length ts mod 2 = 1 then nts @ [last ts] else nts),
      (mem, r, ns, ts)) \<in> measure (\<lambda>(mem, r, ns, ts). length ts)"
    by simp presburger
qed

declare tournament_rounds.simps [simp del]

text \<open>\<open>min_depth_binary_tree::build_tree\<close>. The result is the exception, if one leaves the
  call, and the tree as the call leaves it: the object outlives the exception.\<close>

definition build_tree ::
  "alloc \<Rightarrow> nat \<Rightarrow> min_depth_binary_tree \<Rightarrow> error option \<times> min_depth_binary_tree" where
  "build_tree mem num_nodes t =
     (if initialized t then
        (if num_nodes \<noteq> num_leaf_nodes t
         then (Some (ConfigurationConflict num_nodes (num_leaf_nodes t)), t)
         else (None, t))
      else
        (let t1 = t\<lparr>num_leaf_nodes := num_nodes\<rparr> in
         if num_leaf_nodes t1 = 0 then (None, t1\<lparr>initialized := True\<rparr>)
         else if \<not> mem 0 then (Some (OutOfMemory (num_leaf_nodes t1)), t1)
         else if \<not> mem 1 then (Some (OutOfMemory (num_leaf_nodes t1)), t1)
         else
           (case add_leaf_nodes (num_leaf_nodes t1) (nodes t1, []) of
              (ns, ts) \<Rightarrow>
                (case tournament_rounds mem 2 ns ts of
                   (False, ns', ts') \<Rightarrow>
                     (Some (OutOfMemory (num_leaf_nodes t1)), t1\<lparr>nodes := ns'\<rparr>)
                 | (True, ns', ts') \<Rightarrow>
                     (None, t1\<lparr>nodes := ns', root_idx := ts' ! 0, initialized := True\<rparr>)))))"

text \<open>The tree that \<open>build_tree\<close> makes of a default-constructed one when every storage request
  is granted.\<close>

definition built :: "nat \<Rightarrow> min_depth_binary_tree" where
  "built k = snd (build_tree (\<lambda>_. True) k fresh_tree)"

text \<open>\<open>internal_node_count\<close>: the difference is taken in \<open>size_t\<close> (wrapping at \<open>2^64\<close>) and
  returned as \<open>uint32_t\<close>.\<close>

definition internal_node_count :: "min_depth_binary_tree \<Rightarrow> nat" where
  "internal_node_count t =
     u32 ((length (nodes t) + 18446744073709551616 - num_leaf_nodes t) mod 18446744073709551616)"

definition leaf_node_count :: "min_depth_binary_tree \<Rightarrow> nat" where
  "leaf_node_count t = num_leaf_nodes t"

section \<open>predict\<close>

text \<open>
  The base learner: \<open>base.predict(ec, idx)\<close> changes the learner and the example, here the
  state \<open>'s\<close>, and leaves the two scores \<open>ec.pred.a_s[0].score\<close> and
  \<open>ec.pred.a_s[1].score\<close>. Scores are of any type with \<open>0\<close>, \<open>1\<close> and a product; no law of
  arithmetic is assumed of them unless a theorem says so.
\<close>

type_synonym ('a, 's) scorer = "'s \<Rightarrow> nat \<Rightarrow> ('a \<times> 'a) \<times> 's"

text \<open>\<open>for (auto idx = 0; idx < t.internal_node_count(); ++idx)\<close>: \<open>idx\<close> is an \<open>int\<close>, and
  the comparison is unsigned. Incrementing \<open>INT_MAX\<close> is undefined behaviour: the result
  \<open>None\<close>.\<close>

function score_internal_nodes ::
  "('a, 's) scorer \<Rightarrow> nat \<Rightarrow> nat \<Rightarrow> ('a \<times> 'a) list \<Rightarrow> 's \<Rightarrow> (('a \<times> 'a) list \<times> 's) option" where
  "score_internal_nodes base n idx buf s =
     (if idx < n then
        (case base s idx of
           (p, s') \<Rightarrow>
             if idx = INT_MAX then None
             else score_internal_nodes base n (idx + 1) (buf @ [p]) s')
      else Some (buf, s))"
  by pat_completeness auto
termination
  by (relation "measure (\<lambda>(base, n, idx, buf, s). n - idx)") auto

declare score_internal_nodes.simps [simp del]

text \<open>\<open>offset_helper::operator[]\<close>: the index \<open>idx - start_index_offset\<close> is a \<open>size_t\<close>.
  Below the offset it wraps around to at least \<open>2^64 - 2^32\<close>, beyond every buffer; reading or
  writing a vector out of range is undefined behaviour: \<open>None\<close>.\<close>

definition helper_get :: "'b list \<Rightarrow> nat \<Rightarrow> nat \<Rightarrow> 'b option" where
  "helper_get collection start_index_offset idx =
     (if start_index_offset \<le> idx \<and> idx - start_index_offset < length collection
      then Some (collection ! (idx - start_index_offset)) else None)"

text \<open>The state of the reverse pass: the prediction buffer and the scores. \<open>assigned\<close> is not
  in the source: it records, in order, the indices of \<open>scores\<close> that the pass has assigned.\<close>

record 'a pass_state =
  buffer :: "('a \<times> 'a) list"
  scores :: "'a list"
  assigned :: "nat list"

text \<open>The two halves of the loop body, which differ in the child and the probability only: a
  leaf child receives \<open>p\<close> as its score, an internal child has both of its own probabilities
  multiplied by \<open>p\<close> in place.\<close>

definition update_child ::
  "tree_node list \<Rightarrow> nat \<Rightarrow> nat \<Rightarrow> 'a::times \<Rightarrow> 'a pass_state \<Rightarrow> 'a pass_state option" where
  "update_child ns k c p st =
     (if c < length ns then
        (if is_leaf (ns ! c) then
           (if c < length (scores st)
            then Some (st\<lparr>scores := (scores st)[c := p], assigned := assigned st @ [c]\<rparr>)
            else None)
         else
           (case helper_get (buffer st) k c of
              None \<Rightarrow> None
            | Some (child_left_p, child_right_p) \<Rightarrow>
                Some (st\<lparr>buffer := (buffer st)[c - k := (child_left_p * p, child_right_p * p)]\<rparr>)))
      else None)"

text \<open>The body of the loop for an internal node \<open>n\<close>: \<open>right_p\<close> is read after the left child
  has been updated.\<close>

definition visit_node ::
  "tree_node list \<Rightarrow> nat \<Rightarrow> tree_node \<Rightarrow> 'a::times pass_state \<Rightarrow> 'a pass_state option" where
  "visit_node ns k n st =
     (case helper_get (buffer st) k (node_id n) of
        None \<Rightarrow> None
      | Some (left_p, _) \<Rightarrow>
          (case update_child ns k (left_id n) left_p st of
             None \<Rightarrow> None
           | Some st1 \<Rightarrow>
               (case helper_get (buffer st1) k (node_id n) of
                  None \<Rightarrow> None
                | Some (_, right_p) \<Rightarrow> update_child ns k (right_id n) right_p st1)))"

text \<open>\<open>for (auto rit = t.nodes.rbegin(); rit != t.nodes.rend(); ++rit)\<close>, over the nodes yet to
  come in reverse order; the loop is left at the first leaf.\<close>

fun propagate ::
  "tree_node list \<Rightarrow> nat \<Rightarrow> tree_node list \<Rightarrow> 'a::times pass_state \<Rightarrow> 'a pass_state option" where
  "propagate ns k [] st = Some st"
| "propagate ns k (n # rest) st =
     (if is_leaf n then Some st
      else (case visit_node ns k n st of
              None \<Rightarrow> None
            | Some st' \<Rightarrow> propagate ns k rest st'))"

text \<open>\<open>scores.resize(n)\<close>: the entries that stay keep their values, new entries are \<open>0\<close>.\<close>

definition resize :: "nat \<Rightarrow> 'a::zero list \<Rightarrow> 'a list" where
  "resize n xs = take n xs @ replicate (n - length xs) 0"

text \<open>
  \<open>offset_tree::predict\<close>, with the state of the pass as it ends. \<open>scores0\<close> is the
  thread-local vector \<open>scores\<close> as the previous call on this thread left it (at the first call,
  as its initialiser made it); the thread-local \<open>prediction_buffer\<close> is cleared at once, so
  its former content is no input. The result \<open>None\<close> is undefined behaviour: no vector
  is returned. The storage that \<open>predict\<close> requests (for the two vectors) is taken as
  granted. The initialisers of the two thread-local vectors run at the first call of a
  thread only and are no step of the model; \<open>prediction_buffer(learner_count())\<close> takes its
  size from an \<open>int32_t\<close>, negative from \<open>2^31\<close> internal nodes on, where the initialiser
  throws \<open>std::length_error\<close> before the base learner is called: for more than \<open>2^31\<close>
  leaves the first call of a thread returns no vector for that reason already.
\<close>

definition predict_pass ::
  "('a::{zero,one,times}, 's) scorer \<Rightarrow> min_depth_binary_tree \<Rightarrow> 's \<Rightarrow> 'a list \<Rightarrow>
     ('a pass_state \<times> 's) option" where
  "predict_pass base t s scores0 =
     (let st = \<lparr>buffer = [], scores = resize (leaf_node_count t) scores0, assigned = []\<rparr> in
      if leaf_node_count t = 0 then Some (st, s)
      else if leaf_node_count t = 1
      then Some (st\<lparr>scores := (scores st)[0 := 1], assigned := [0]\<rparr>, s)
      else
        (case score_internal_nodes base (internal_node_count t) 0 [] s of
           None \<Rightarrow> None
         | Some (buf, s') \<Rightarrow>
             (case propagate (nodes t) (leaf_node_count t) (rev (nodes t)) (st\<lparr>buffer := buf\<rparr>) of
                None \<Rightarrow> None
              | Some st' \<Rightarrow> Some (st', s'))))"

text \<open>What \<open>offset_tree::predict\<close> returns: the scores, and the state the base learner is left
  in.\<close>

definition predict ::
  "('a::{zero,one,times}, 's) scorer \<Rightarrow> min_depth_binary_tree \<Rightarrow> 's \<Rightarrow> 'a list \<Rightarrow>
     ('a list \<times> 's) option" where
  "predict base t s scores0 =
     map_option (\<lambda>(st, s'). (scores st, s')) (predict_pass base t s scores0)"

section \<open>learn\<close>

text \<open>\<open>learn\<close> throws at once; the result is the exception and its three arguments as the
  call leaves them.\<close>

definition learn ::
  "min_depth_binary_tree \<Rightarrow> 'b \<Rightarrow> 'e \<Rightarrow> error option \<times> min_depth_binary_tree \<times> 'b \<times> 'e" where
  "learn tree base ec = (Some NotImplemented, tree, base, ec)"

section \<open>The invariant of the tournament construction\<close>

text \<open>The identifiers of the children of a list of internal nodes, in the order of the list.\<close>

definition child_ids :: "tree_node list \<Rightarrow> nat list" where
  "child_ids xs = concat (map (\<lambda>n. [left_id n, right_id n]) xs)"

text \<open>
  What holds of \<open>nodes\<close> and \<open>tournaments\<close> before and after every round, for \<open>k\<close> leaves:
  the node at index \<open>i\<close> carries the identifier \<open>u32 i\<close>, the first \<open>k\<close> nodes are the leaves,
  every identifier handed out so far is either a child of exactly one internal node or still
  a candidate, and the children of a node were handed out before the node.
\<close>

definition forest :: "nat \<Rightarrow> tree_node list \<Rightarrow> nat list \<Rightarrow> bool" where
  "forest k ns ts \<longleftrightarrow>
     k \<le> length ns \<and> length ns + length ts = 2 * k \<and> ts \<noteq> [] \<and>
     (\<forall>i<length ns. node_id (ns ! i) = u32 i \<and> is_leaf (ns ! i) = (i < k)) \<and>
     mset (child_ids (drop k ns)) + mset ts = mset (map u32 [0..<length ns]) \<and>
     (\<forall>i<length ns. \<not> is_leaf (ns ! i) \<longrightarrow>
        left_id (ns ! i) \<in> u32 ` {..<i} \<and> right_id (ns ! i) \<in> u32 ` {..<i})"

section \<open>Paths, products and the scorer's responses\<close>

text \<open>A step of a path goes from an internal node to its left or its right child.\<close>

datatype side = GoLeft | GoRight

text \<open>The component of a pair of probabilities, and the child of a node, on a side.\<close>

fun branch :: "side \<Rightarrow> 'a \<times> 'a \<Rightarrow> 'a" where
  "branch GoLeft p = fst p"
| "branch GoRight p = snd p"

fun child :: "side \<Rightarrow> tree_node \<Rightarrow> nat" where
  "child GoLeft n = left_id n"
| "child GoRight n = right_id n"

text \<open>
  \<open>follow ns a steps\<close> is the node that the steps lead to from the node \<open>a\<close>, each step
  naming the internal node it leaves (looked up as \<open>t.nodes[id]\<close>) and the side it takes;
  \<open>None\<close> when the steps are no path of the tree.
\<close>

fun follow :: "tree_node list \<Rightarrow> nat \<Rightarrow> (nat \<times> side) list \<Rightarrow> nat option" where
  "follow ns a [] = Some a"
| "follow ns a ((n, d) # rest) =
     (if n = a \<and> a < length ns \<and> \<not> is_leaf (ns ! a) then follow ns (child d (ns ! a)) rest
      else None)"

text \<open>
  The product of the probabilities along a path, \<open>raw\<close> holding the pair of the internal
  node \<open>n\<close> at index \<open>n - k\<close>: the probability of the first step, multiplied from the
  left by that of each further step (the order in which the pass multiplies). The empty path
  has the product \<open>1\<close>.
\<close>

fun path_product :: "('a \<times> 'a) list \<Rightarrow> nat \<Rightarrow> (nat \<times> side) list \<Rightarrow> 'a::{one,times}" where
  "path_product raw k [] = 1"
| "path_product raw k ((n, d) # rest) =
     foldl (\<lambda>m (n', d'). branch d' (raw ! (n' - k)) * m) (branch d (raw ! (n - k))) rest"

text \<open>The base learner called once for every index of a list, in the order of the list: its
  answers and the state it is left in.\<close>

fun run_scorer :: "('a, 's) scorer \<Rightarrow> 's \<Rightarrow> nat list \<Rightarrow> ('a \<times> 'a) list \<times> 's" where
  "run_scorer base s [] = ([], s)"
| "run_scorer base s (i # is) =
     (case base s i of
        (p, s') \<Rightarrow> (case run_scorer base s' is of (ps, s'') \<Rightarrow> (p # ps, s'')))"

text \<open>A base learner that also keeps the list of the indices it has been called with.\<close>

definition logged :: "('a, 's) scorer \<Rightarrow> ('a, 's \<times> nat list) scorer" where
  "logged base = (\<lambda>(s, calls) idx. case base s idx of (p, s') \<Rightarrow> (p, (s', calls @ [idx])))"

section \<open>The invariant of the reverse pass\<close>

text \<open>
  A finished tree of \<open>k\<close> leaves whose identifiers have not wrapped: the node at index \<open>i\<close>
  has the identifier \<open>i\<close>, the first \<open>k\<close> nodes are the leaves, children have smaller
  identifiers than their parents, and every node but the root is a child exactly once.
\<close>

definition tree_ok :: "nat \<Rightarrow> tree_node list \<Rightarrow> nat \<Rightarrow> bool" where
  "tree_ok k ns rt \<longleftrightarrow>
     1 \<le> k \<and> length ns = 2 * k - 1 \<and>
     (\<forall>i<2 * k - 1. node_id (ns ! i) = i \<and> is_leaf (ns ! i) = (i < k)) \<and>
     (\<forall>i. k \<le> i \<and> i < 2 * k - 1 \<longrightarrow> left_id (ns ! i) < i \<and> right_id (ns ! i) < i) \<and>
     mset (child_ids (drop k ns)) + {#rt#} = mset [0..<2 * k - 1]"

text \<open>
  What the pass keeps for a node: the score of a leaf, the pair in the buffer of an internal
  node; and what a node is to hold once its parent has handed down \<open>p\<close>.
\<close>

definition cell :: "nat \<Rightarrow> 'a pass_state \<Rightarrow> nat \<Rightarrow> 'a + 'a \<times> 'a" where
  "cell k st c = (if c < k then Inl (scores st ! c) else Inr (buffer st ! (c - k)))"

definition target :: "nat \<Rightarrow> ('a \<times> 'a) list \<Rightarrow> nat \<Rightarrow> 'a::times \<Rightarrow> 'a + 'a \<times> 'a" where
  "target k raw c p =
     (if c < k then Inl p else Inr (fst (raw ! (c - k)) * p, snd (raw ! (c - k)) * p))"

text \<open>
  After the internal nodes at the indices \<open>j\<close> and above have been visited: every child of a
  visited node holds what its parent handed down, the pair of every other internal node is
  still the answer of the base learner, and the assignments to \<open>scores\<close> so far are those to
  the leaf children of the visited nodes, in the order of the visits.
\<close>

definition pass_inv ::
  "tree_node list \<Rightarrow> nat \<Rightarrow> ('a \<times> 'a) list \<Rightarrow> nat \<Rightarrow> 'a::times pass_state \<Rightarrow> bool" where
  "pass_inv ns k raw j st \<longleftrightarrow>
     length (buffer st) = k - 1 \<and> length (scores st) = k \<and>
     (\<forall>m d. j \<le> m \<and> m < 2 * k - 1 \<longrightarrow>
        cell k st (child d (ns ! m)) = target k raw (child d (ns ! m)) (branch d (buffer st ! (m - k)))) \<and>
     (\<forall>c. k \<le> c \<and> c < 2 * k - 1 \<and> c \<notin> set (child_ids (drop j ns)) \<longrightarrow>
        buffer st ! (c - k) = raw ! (c - k)) \<and>
     assigned st = filter (\<lambda>c. c < k) (child_ids (rev (drop j ns)))"

text \<open>
  The base learner of the scenario of four leaves: it answers \<open>(0.6, 0.4)\<close> for node 4
  (index 0), \<open>(0.3, 0.7)\<close> for node 5 (index 1) and \<open>(0.9, 0.1)\<close> for node 6 (index 2),
  with real numbers as scores, and has no state.
\<close>

definition scenario :: "(real, unit) scorer" where
  "scenario = (\<lambda>s idx. ((if idx = 0 then (0.6, 0.4) else if idx = 1 then (0.3, 0.7) else (0.9, 0.1)), s))"

section \<open>The products of float\<close>

text \<open>
  The scores of the source are \<open>float\<close>. A finite value of binary32 is \<open>m \<times> 2^e\<close> with
  integers \<open>m\<close> and \<open>e\<close>, here \<open>B32 m e\<close>. The exponent is unbounded: overflow, the
  subnormal range, infinities and NaN are not in the model.
\<close>

datatype binary32 = B32 int int

text \<open>The number of binary digits of a natural number.\<close>

fun bits :: "nat \<Rightarrow> nat" where
  "bits n = (if n = 0 then 0 else Suc (bits (n div 2)))"

declare bits.simps [simp del]

text \<open>The quotient of \<open>m\<close> by a positive \<open>d\<close>, rounded to the nearest integer, a tie to the
  even one.\<close>

definition round_even_div :: "int \<Rightarrow> int \<Rightarrow> int" where
  "round_even_div m d =
     (let q = m div d; r = m mod d
      in if 2 * r < d then q else if d < 2 * r then q + 1 else if even q then q else q + 1)"

text \<open>\<open>m \<times> 2^e\<close> rounded to a significand of 24 binary digits, the precision of binary32, to
  the nearest value, a tie to the even significand (the default rounding of IEEE 754).\<close>

definition round24 :: "int \<Rightarrow> int \<Rightarrow> binary32" where
  "round24 m e =
     (let n = bits (nat \<bar>m\<bar>)
      in if n \<le> 24 then B32 m e
         else B32 (round_even_div m (2 ^ (n - 24))) (e + int (n - 24)))"

text \<open>
  \<open>0.0f\<close>, \<open>1.0f\<close> and the product of two \<open>float\<close>s, \<open>left_left_p * left_p\<close> in the
  source: the exact product, rounded. It is the product of binary32 wherever that neither
  overflows nor falls below the normal range.
\<close>

instantiation binary32 :: "{zero, one, times}"
begin

definition zero_binary32 :: binary32 where
  "zero_binary32 = B32 0 0"

definition one_binary32 :: binary32 where
  "one_binary32 = B32 1 0"

fun times_binary32 :: "binary32 \<Rightarrow> binary32 \<Rightarrow> binary32" where
  "times_binary32 (B32 m1 e1) (B32 m2 e2) = round24 (m1 * m2) (e1 + e2)"

instance ..

end

text \<open>The real number that a value of binary32 stands for.\<close>

definition val32 :: "binary32 \<Rightarrow> real" where
  "val32 x = (case x of B32 m e \<Rightarrow>
     if 0 \<le> e then of_int m * 2 ^ nat e else of_int m / 2 ^ nat (- e))"




definition nearly_one :: "(binary32, unit) scorer" where
  "nearly_one = (\<lambda>s idx. ((B32 16777215 (- 24), B32 1 (- 24)), s))"

section \<open>The invariant of the depths\<close>

text \<open>
  What holds of the candidates after \<open>h\<close> rounds: no path from a candidate is longer than
  \<open>h\<close>, and a path of length \<open>h\<close> leads from the first candidate to a leaf.
\<close>

definition depth_inv :: "nat \<Rightarrow> tree_node list \<Rightarrow> nat list \<Rightarrow> nat \<Rightarrow> bool" where
  "depth_inv k ns ts h \<longleftrightarrow>
     (\<forall>a\<in>set ts. \<forall>steps c. follow ns a steps = Some c \<longrightarrow> length steps \<le> h) \<and>
     (\<exists>steps c. follow ns (hd ts) steps = Some c \<and> c < k \<and> length steps = h)"

section \<open>Lemmas about the construction\<close>

lemma u32_idem [simp]: "u32 (u32 n) = u32 n"
  by (simp add: u32_def)

lemma u32_small: "n < 4294967296 \<Longrightarrow> u32 n = n"
  by (simp add: u32_def)

lemma add_leaf_nodes_eq:
  "add_leaf_nodes k (ns, ts) = (ns @ map (\<lambda>i. mk_tree_node i 0 0 True) [0..<k], ts @ [0..<k])"
  by (induction k) (simp_all add: add_leaf_nodes_def)

lemma pair_fold_eq:
  "fold (\<lambda>j (idn, ns, nts).
             (let left = ts ! (2 * j); right = ts ! (2 * j + 1)
              in (idn + 1, ns @ [mk_tree_node idn left right False], nts @ [u32 idn])))
          [0..<m] (i, ns, nts) =
   (i + m, ns @ map (\<lambda>j. mk_tree_node (i + j) (ts ! (2 * j)) (ts ! (2 * j + 1)) False) [0..<m],
    nts @ map (\<lambda>j. u32 (i + j)) [0..<m])"
  by (induction m) (simp_all add: Let_def)

lemma pair_tournaments_eq:
  "pair_tournaments ts (i, ns, nts) =
   (i + length ts div 2,
    ns @ map (\<lambda>j. mk_tree_node (i + j) (ts ! (2 * j)) (ts ! (2 * j + 1)) False) [0..<length ts div 2],
    nts @ map (\<lambda>j. u32 (i + j)) [0..<length ts div 2])"
  unfolding pair_tournaments_def by (rule pair_fold_eq)

lemma concat_pairs_take:
  "2 * m \<le> length ts \<Longrightarrow> concat (map (\<lambda>j. [ts ! (2 * j), ts ! (2 * j + 1)]) [0..<m]) = take (2 * m) ts"
proof (induction m)
  case 0
  then show ?case by simp
next
  case (Suc m)
  then have "take (2 * Suc m) ts = take (2 * m) ts @ [ts ! (2 * m), ts ! (2 * m + 1)]"
    by (simp add: take_Suc_conv_app_nth)
  with Suc show ?case by simp
qed

lemma carry_drop:
  "1 < length ts \<Longrightarrow> (if length ts mod 2 = 1 then [last ts] else []) = drop (2 * (length ts div 2)) ts"
proof (cases "length ts mod 2 = 1")
  case True
  assume "1 < length ts"
  then have ne: "ts \<noteq> []" by auto
  from True have "2 * (length ts div 2) = length ts - 1" by presburger
  moreover have "drop (length ts - 1) ts = [last ts]"
    using ne by (metis append_butlast_last_id append_eq_conv_conj length_butlast)
  ultimately show ?thesis using True by simp
next
  case False
  then have "2 * (length ts div 2) = length ts" by presburger
  then show ?thesis using False by simp
qed

lemma forest_tournaments_small:
  assumes "forest k ns ts" "x \<in> set ts"
  shows "x \<in> u32 ` {..<length ns}"
proof -
  from assms(1) have "mset (child_ids (drop k ns)) + mset ts = mset (map u32 [0..<length ns])"
    by (simp add: forest_def)
  then have "set_mset (mset (child_ids (drop k ns)) + mset ts) = set_mset (mset (map u32 [0..<length ns]))"
    by simp
  then have "set ts \<subseteq> set (map u32 [0..<length ns])"
    by auto
  with assms(2) show ?thesis by (auto simp: lessThan_def)
qed

lemma child_ids_append [simp]: "child_ids (xs @ ys) = child_ids xs @ child_ids ys"
  by (simp add: child_ids_def)

lemma length_next_round: 
  "length (if length ts mod 2 = 1 then map f [0..<length ts div 2] @ [last ts] else map f [0..<length ts div 2]) = length ts - length ts div 2"
  by (simp; presburger)

lemma map_u32_upt_add: "map u32 [0..<n + m] = map u32 [0..<n] @ map (\<lambda>j. u32 (n + j)) [0..<m]"
  by (induction m) simp_all

lemma child_ids_new:
  assumes fixed: "\<And>x. x \<in> set ts \<Longrightarrow> u32 x = x" and m2: "2 * m \<le> length ts"
  shows "child_ids (map (\<lambda>j. mk_tree_node (n + j) (ts ! (2 * j)) (ts ! (2 * j + 1)) False) [0..<m])
     = take (2 * m) ts"
proof -
  have "[left_id (mk_tree_node (n + j) (ts ! (2 * j)) (ts ! (2 * j + 1)) False),
         right_id (mk_tree_node (n + j) (ts ! (2 * j)) (ts ! (2 * j + 1)) False)]
        = [ts ! (2 * j), ts ! (2 * j + 1)]" if "j < m" for j
    using that m2 by (simp add: mk_tree_node_def fixed)
  then have "child_ids (map (\<lambda>j. mk_tree_node (n + j) (ts ! (2 * j)) (ts ! (2 * j + 1)) False) [0..<m])
     = concat (map (\<lambda>j. [ts ! (2 * j), ts ! (2 * j + 1)]) [0..<m])"
    unfolding child_ids_def map_map o_def
    by (intro arg_cong [where f = concat] map_cong) simp_all
  then show ?thesis using concat_pairs_take [OF m2] by simp
qed

lemma forest_round:
  assumes f: "forest k ns ts" and big: "1 < length ts"
  defines "m \<equiv> length ts div 2"
  defines "new \<equiv> map (\<lambda>j. mk_tree_node (length ns + j) (ts ! (2 * j)) (ts ! (2 * j + 1)) False) [0..<m]"
  defines "nts \<equiv> map (\<lambda>j. u32 (length ns + j)) [0..<m]"
  shows "forest k (ns @ new) (if length ts mod 2 = 1 then nts @ [last ts] else nts)"
proof -
  define ts' where "ts' = (if length ts mod 2 = 1 then nts @ [last ts] else nts)"
  have m2: "2 * m \<le> length ts" by (simp add: m_def)
  have len_new: "length new = m" by (simp add: new_def)
  have len_ts': "length ts' = length ts - m" 
    unfolding ts'_def nts_def m_def by (rule length_next_round)
  have fixed: "u32 x = x" if "x \<in> set ts" for x
    using forest_tournaments_small [OF f that] by auto
  have nth_ts: "ts ! i \<in> set ts" if "i < 2 * m" for i
    using that m2 by simp
  have k_le: "k \<le> length ns" and len: "length ns + length ts = 2 * k"
    and shape: "\<And>i. i < length ns \<Longrightarrow> node_id (ns ! i) = u32 i \<and> is_leaf (ns ! i) = (i < k)"
    and ms: "mset (child_ids (drop k ns)) + mset ts = mset (map u32 [0..<length ns])"
    and ch: "\<And>i. i < length ns \<Longrightarrow> \<not> is_leaf (ns ! i) \<Longrightarrow>
        left_id (ns ! i) \<in> u32 ` {..<i} \<and> right_id (ns ! i) \<in> u32 ` {..<i}"
    using f by (simp_all add: forest_def)
  have new_nth: "new ! j = mk_tree_node (length ns + j) (ts ! (2 * j)) (ts ! (2 * j + 1)) False"
    if "j < m" for j using that by (simp add: new_def)
  have c1: "k \<le> length (ns @ new)" using k_le by simp
  have c2: "length (ns @ new) + length ts' = 2 * k"
    using len len_new len_ts' m2 by simp
  have c2': "ts' \<noteq> []"
    using len_ts' big m2 by (cases ts') auto
  have c3: "node_id ((ns @ new) ! i) = u32 i \<and> is_leaf ((ns @ new) ! i) = (i < k)"
    if i: "i < length (ns @ new)" for i
  proof (cases "i < length ns")
    case True
    with shape show ?thesis by (simp add: nth_append)
  next
    case False
    with i len_new have j: "i - length ns < m" by simp
    from False have "(ns @ new) ! i = new ! (i - length ns)" by (simp add: nth_append)
    with new_nth [OF j] False k_le show ?thesis by (simp add: mk_tree_node_def)
  qed
  have ch_new: "child_ids new = take (2 * m) ts"
    unfolding new_def using fixed m2 by (rule child_ids_new)
  have "ts' = nts @ drop (2 * m) ts"
    using carry_drop [OF big] unfolding m_def ts'_def by (simp split: if_splits)
  then have "mset (child_ids new) + mset ts' = mset (take (2 * m) ts) + mset (drop (2 * m) ts) + mset nts"
    using ch_new by simp
  also have "mset (take (2 * m) ts) + mset (drop (2 * m) ts) = mset ts"
    by (metis append_take_drop_id mset_append)
  finally have step: "mset (child_ids new) + mset ts' = mset ts + mset nts" .
  have d: "drop k (ns @ new) = drop k ns @ new" using k_le by simp
  have u: "map u32 [0..<length (ns @ new)] = map u32 [0..<length ns] @ nts"
    using map_u32_upt_add [of "length ns" m] by (simp add: nts_def len_new)
  have "mset (child_ids (drop k (ns @ new))) + mset ts'
      = mset (child_ids (drop k ns)) + (mset (child_ids new) + mset ts')"
    unfolding d by simp
  also have "\<dots> = (mset (child_ids (drop k ns)) + mset ts) + mset nts"
    unfolding step by simp
  also have "\<dots> = mset (map u32 [0..<length (ns @ new)])"
    unfolding ms u by simp
  finally have c4: "mset (child_ids (drop k (ns @ new))) + mset ts' = mset (map u32 [0..<length (ns @ new)])" .
  have c5: "left_id ((ns @ new) ! i) \<in> u32 ` {..<i} \<and> right_id ((ns @ new) ! i) \<in> u32 ` {..<i}"
    if i: "i < length (ns @ new)" and nl: "\<not> is_leaf ((ns @ new) ! i)" for i
  proof (cases "i < length ns")
    case True
    with ch [of i] nl show ?thesis by (simp add: nth_append)
  next
    case False
    with i len_new have j: "i - length ns < m" by simp
    from False have eq: "(ns @ new) ! i = new ! (i - length ns)" by (simp add: nth_append)
    have sub: "u32 ` {..<length ns} \<subseteq> u32 ` {..<i}" using False by auto
    have l: "ts ! (2 * (i - length ns)) \<in> set ts" and r: "ts ! (2 * (i - length ns) + 1) \<in> set ts"
      using j nth_ts by simp_all
    have "left_id ((ns @ new) ! i) = ts ! (2 * (i - length ns))"
      "right_id ((ns @ new) ! i) = ts ! (2 * (i - length ns) + 1)"
      unfolding eq new_nth [OF j] using fixed [OF l] fixed [OF r] by (simp_all add: mk_tree_node_def)
    with forest_tournaments_small [OF f l] forest_tournaments_small [OF f r] sub
    show ?thesis by auto
  qed
  have "forest k (ns @ new) ts'"
    unfolding forest_def using c1 c2 c2' c3 c4 c5 by blast
  then show ?thesis by (simp add: ts'_def)
qed


lemma tournament_rounds_forest:
  assumes "forest k ns ts" and "tournament_rounds mem r ns ts = (True, ns', ts')"
  shows "forest k ns' ts' \<and> length ts' = 1"
  using assms
proof (induction mem r ns ts rule: tournament_rounds.induct)
  case (1 mem r ns ts)
  show ?case
  proof (cases "1 < length ts")
    case False
    moreover from "1.prems"(1) have "ts \<noteq> []" by (simp add: forest_def)
    ultimately have "length ts = 1" by (cases ts) auto
    with "1.prems" show ?thesis by (simp add: tournament_rounds.simps)
  next
    case True
    define m where "m = length ts div 2"
    define new where "new = map (\<lambda>j. mk_tree_node (length ns + j) (ts ! (2 * j)) (ts ! (2 * j + 1)) False) [0..<m]"
    define nts where "nts = map (\<lambda>j. u32 (length ns + j)) [0..<m]"
    define ts1 where "ts1 = (if length ts mod 2 = 1 then nts @ [last ts] else nts)"
    have pt: "pair_tournaments ts (length ns, ns, []) = (length ns + m, ns @ new, nts)"
      by (simp add: pair_tournaments_eq m_def new_def nts_def)
    have granted: "mem r"
      using "1.prems"(2) True by (subst (asm) tournament_rounds.simps) (simp split: if_splits)
    have rec: "tournament_rounds mem (r + 1) (ns @ new) ts1 = (True, ns', ts')"
      using "1.prems"(2) True granted pt
      by (subst (asm) tournament_rounds.simps) (simp add: ts1_def)
    have "forest k (ns @ new) ts1"
      unfolding new_def nts_def m_def ts1_def by (rule forest_round [OF "1.prems"(1) True])
    then show ?thesis
      using "1.IH" [OF True granted pt [symmetric] refl _ rec [unfolded ts1_def]]
      by (simp add: ts1_def)
  qed
qed

lemma tournament_rounds_granted:
  "\<forall>i. mem i \<Longrightarrow> fst (tournament_rounds mem r ns ts)"
proof (induction mem r ns ts rule: tournament_rounds.induct)
  case (1 mem r ns ts)
  show ?case
  proof (cases "1 < length ts")
    case False
    then show ?thesis by (simp add: tournament_rounds.simps)
  next
    case True
    obtain idn ns1 nts where pt: "pair_tournaments ts (length ns, ns, []) = (idn, ns1, nts)"
      by (cases "pair_tournaments ts (length ns, ns, [])") auto
    from "1.prems" have granted: "mem r" by simp
    show ?thesis
      using "1.IH" [OF True granted pt [symmetric] refl "1.prems"] True granted pt
      by (subst tournament_rounds.simps) simp
  qed
qed

lemma forest_leaves:
  assumes "k \<le> 4294967296" "0 < k"
  shows "forest k (map (\<lambda>i. mk_tree_node i 0 0 True) [0..<k]) [0..<k]"
proof -
  have "map u32 [0..<k] = [0..<k]"
    using assms(1) by (intro map_idI) (simp add: u32_small)
  with assms(2) show ?thesis
    by (auto simp: forest_def child_ids_def mk_tree_node_def u32_small)
qed

lemma build_tree_fresh:
  assumes "0 < k" "k \<le> 4294967296" and "build_tree mem k fresh_tree = (None, t)"
  shows "num_leaf_nodes t = k \<and> initialized t \<and> forest k (nodes t) [root_idx t]"
proof -
  let ?lv = "map (\<lambda>i. mk_tree_node i 0 0 True) [0..<k]"
  obtain b ns' ts' where tr: "tournament_rounds mem 2 ?lv [0..<k] = (b, ns', ts')"
    by (cases "tournament_rounds mem 2 ?lv [0..<k]") auto
  from assms(3) tr assms(1) have b: "b" and t: "t = \<lparr>nodes = ns', root_idx = ts' ! 0, num_leaf_nodes = k, initialized = True\<rparr>"
    by (auto simp: build_tree_def fresh_tree_def add_leaf_nodes_eq Let_def split: if_splits bool.splits)
  from tournament_rounds_forest [OF forest_leaves [OF assms(2,1)]] tr b
  have "forest k ns' ts'" "length ts' = 1" by auto
  then have "forest k ns' [ts' ! 0]" by (cases ts') auto
  with t show ?thesis by simp
qed

lemma built_eq:
  "build_tree (\<lambda>_. True) k fresh_tree = (None, built k)"
proof -
  have "fst (tournament_rounds (\<lambda>_. True) 2 ns ts)" for ns ts
    by (rule tournament_rounds_granted) simp
  then have "tournament_rounds (\<lambda>_. True) 2 ns ts \<noteq> (False, a, b)" for ns ts a b
    by (metis fst_conv)
  then show ?thesis
    by (auto simp: built_def build_tree_def fresh_tree_def Let_def split: prod.splits bool.splits)
qed

lemma built_forest:
  assumes "0 < k" "k \<le> 4294967296"
  shows "num_leaf_nodes (built k) = k \<and> initialized (built k) \<and> forest k (nodes (built k)) [root_idx (built k)]"
  using build_tree_fresh [OF assms built_eq] .

section \<open>The trees for two, three and five leaves\<close>

lemma built_2:
  "built 2 = \<lparr>nodes = [\<lparr>node_id = 0, left_id = 0, right_id = 0, is_leaf = True\<rparr>,
                       \<lparr>node_id = 1, left_id = 0, right_id = 0, is_leaf = True\<rparr>,
                       \<lparr>node_id = 2, left_id = 0, right_id = 1, is_leaf = False\<rparr>],
              root_idx = 2, num_leaf_nodes = 2, initialized = True\<rparr>"
  by (simp add: built_def build_tree_def fresh_tree_def add_leaf_nodes_eq pair_tournaments_eq 
      mk_tree_node_def Let_def u32_def tournament_rounds.simps upt_rec)

lemma built_3:
  "built 3 = \<lparr>nodes = [\<lparr>node_id = 0, left_id = 0, right_id = 0, is_leaf = True\<rparr>,
                       \<lparr>node_id = 1, left_id = 0, right_id = 0, is_leaf = True\<rparr>,
                       \<lparr>node_id = 2, left_id = 0, right_id = 0, is_leaf = True\<rparr>,
                       \<lparr>node_id = 3, left_id = 0, right_id = 1, is_leaf = False\<rparr>,
                       \<lparr>node_id = 4, left_id = 3, right_id = 2, is_leaf = False\<rparr>],
              root_idx = 4, num_leaf_nodes = 3, initialized = True\<rparr>"
  by (simp add: built_def build_tree_def fresh_tree_def add_leaf_nodes_eq pair_tournaments_eq 
      mk_tree_node_def Let_def u32_def tournament_rounds.simps upt_rec)

lemma built_5:
  "built 5 = \<lparr>nodes = [\<lparr>node_id = 0, left_id = 0, right_id = 0, is_leaf = True\<rparr>,
                       \<lparr>node_id = 1, left_id = 0, right_id = 0, is_leaf = True\<rparr>,
                       \<lparr>node_id = 2, left_id = 0, right_id = 0, is_leaf = True\<rparr>,
                       \<lparr>node_id = 3, left_id = 0, right_id = 0, is_leaf = True\<rparr>,
                       \<lparr>node_id = 4, left_id = 0, right_id = 0, is_leaf = True\<rparr>,
                       \<lparr>node_id = 5, left_id = 0, right_id = 1, is_leaf = False\<rparr>,
                       \<lparr>node_id = 6, left_id = 2, right_id = 3, is_leaf = False\<rparr>,
                       \<lparr>node_id = 7, left_id = 5, right_id = 6, is_leaf = False\<rparr>,
                       \<lparr>node_id = 8, left_id = 7, right_id = 4, is_leaf = False\<rparr>],
              root_idx = 8, num_leaf_nodes = 5, initialized = True\<rparr>"
  by (simp add: built_def build_tree_def fresh_tree_def add_leaf_nodes_eq pair_tournaments_eq 
      mk_tree_node_def Let_def u32_def tournament_rounds.simps upt_rec)

section \<open>Properties of build_tree\<close>

lemma build_tree_returns:
  "build_tree mem k t = (None, t1) \<Longrightarrow> initialized t1 \<and> num_leaf_nodes t1 = k"
  by (auto simp: build_tree_def Let_def split: if_splits prod.splits bool.splits)

lemma built_shape:
  assumes "1 \<le> k" "k \<le> 4294967296"
  shows "length (nodes (built k)) = 2 * k - 1"
    and "i < 2 * k - 1 \<Longrightarrow> node_id (nodes (built k) ! i) = u32 i"
    and "i < 2 * k - 1 \<Longrightarrow> is_leaf (nodes (built k) ! i) = (i < k)"
proof -
  from built_forest [of k] assms have f: "forest k (nodes (built k)) [root_idx (built k)]" by simp
  then have "Suc (length (nodes (built k))) = 2 * k" by (simp add: forest_def)
  then show len: "length (nodes (built k)) = 2 * k - 1" by simp
  from f len show "i < 2 * k - 1 \<Longrightarrow> node_id (nodes (built k) ! i) = u32 i"
    "i < 2 * k - 1 \<Longrightarrow> is_leaf (nodes (built k) ! i) = (i < k)"
    by (simp_all add: forest_def)
qed

lemma built_children_below:
  assumes "1 \<le> k" "k \<le> 2147483648" "k \<le> i" "i < 2 * k - 1"
  shows "left_id (nodes (built k) ! i) < i \<and> right_id (nodes (built k) ! i) < i"
proof -
  from built_forest [of k] assms have f: "forest k (nodes (built k)) [root_idx (built k)]" by simp
  from assms have k': "k \<le> 4294967296" by simp
  have nl: "\<not> is_leaf (nodes (built k) ! i)"
    using built_shape(3) [OF assms(1) k' assms(4)] assms(3) by simp
  have "i < length (nodes (built k))" using built_shape(1) [OF assms(1) k'] assms(4) by simp
  with f nl have "left_id (nodes (built k) ! i) \<in> u32 ` {..<i} \<and> right_id (nodes (built k) ! i) \<in> u32 ` {..<i}"
    by (simp add: forest_def)
  moreover have "u32 j = j" if "j < i" for j
    using that assms by (intro u32_small) simp
  ultimately show ?thesis by auto
qed

text \<open>
  C2, amended to the leaf counts whose \<open>2k - 1\<close> nodes can be numbered in 32 bits. For every leaf
  count \<open>k\<close> with \<open>1 \<le> k \<le> 2^31\<close>, \<open>build_tree\<close> on a default-constructed tree returns
  without an exception and leaves \<open>2k - 1\<close> nodes; the node at index \<open>i\<close> has the identifier
  \<open>i\<close>, the nodes \<open>0..k-1\<close> are exactly the leaves, the nodes \<open>k..2k-2\<close> are the internal ones
  in the order of their creation, and the identifier of an internal node is greater than both
  identifiers of its children.
\<close>

theorem build_tree_node_ids:
  assumes "1 \<le> k" and "k \<le> 2147483648"
  shows "build_tree (\<lambda>_. True) k fresh_tree = (None, built k) \<and>
         length (nodes (built k)) = 2 * k - 1 \<and>
         (\<forall>i<2 * k - 1. node_id (nodes (built k) ! i) = i \<and> is_leaf (nodes (built k) ! i) = (i < k)) \<and>
         (\<forall>i. k \<le> i \<and> i < 2 * k - 1 \<longrightarrow>
            left_id (nodes (built k) ! i) < node_id (nodes (built k) ! i) \<and>
            right_id (nodes (built k) ! i) < node_id (nodes (built k) ! i))"
proof -
  from assms have k': "k \<le> 4294967296" by simp
  have ids: "node_id (nodes (built k) ! i) = i" if "i < 2 * k - 1" for i
    using built_shape(2) [OF assms(1) k' that] that assms(2) by (simp add: u32_small)
  show ?thesis
    using built_eq [of k] built_shape(1,3) [OF assms(1) k'] ids built_children_below [OF assms]
    by simp
qed

text \<open>C2 at three leaves.\<close>

theorem build_tree_node_ids_witness:
  "(1::nat) \<le> 3 \<and> (3::nat) \<le> 2147483648 \<and> length (nodes (built 3)) = 5 \<and>
   map node_id (nodes (built 3)) = [0, 1, 2, 3, 4] \<and>
   map is_leaf (nodes (built 3)) = [True, True, True, False, False] \<and>
   left_id (nodes (built 3) ! 4) < node_id (nodes (built 3) ! 4)"
  using build_tree_node_ids [of 3] by (simp add: built_3)

text \<open>
  C2 as stated, for every \<open>k \<ge> 1\<close>, fails at the \<open>uint32_t\<close> leaf count \<open>2^31 + 1\<close>: the
  last of the \<open>2^32 + 1\<close> nodes, the internal node at index \<open>2^32\<close>, gets the identifier \<open>0\<close>,
  which is no identifier of \<open>k..2k-2\<close> and is greater than no identifier of a child.
\<close>

theorem build_tree_node_ids_wrap:
  "length (nodes (built 2147483649)) = 4294967297 \<and>
   \<not> is_leaf (nodes (built 2147483649) ! 4294967296) \<and>
   node_id (nodes (built 2147483649) ! 4294967296) = 0"
  using built_shape(1) [of 2147483649] built_shape(2,3) [of 2147483649 4294967296]
  by (simp add: u32_def)

text \<open>
  C6. Whenever a call of \<open>build_tree\<close> with the leaf count \<open>k\<close> has returned without an
  exception, for any \<open>k \<ge> 0\<close> and from any tree, a second call with the same \<open>k\<close> returns
  without an exception, whatever the allocator would do, and leaves the tree as the first
  call left it.
\<close>

theorem build_tree_idempotent:
  assumes "build_tree mem1 k t = (None, t1)"
  shows "build_tree mem2 k t1 = (None, t1)"
  using build_tree_returns [OF assms] by (simp add: build_tree_def)

text \<open>C6 at three leaves, the second call with an allocator that grants nothing.\<close>

theorem build_tree_idempotent_witness:
  "build_tree (\<lambda>_. True) 3 fresh_tree = (None, built 3) \<and>
   build_tree (\<lambda>_. False) 3 (built 3) = (None, built 3)"
proof -
  have h: "build_tree (\<lambda>_. True) 3 fresh_tree = (None, built 3)"
    by (simp add: build_tree_def fresh_tree_def add_leaf_nodes_eq pair_tournaments_eq 
      mk_tree_node_def Let_def u32_def tournament_rounds.simps upt_rec built_3)
  show ?thesis using h build_tree_idempotent [OF h, of "\<lambda>_. False"] by simp
qed

text \<open>
  C7. Whenever a call of \<open>build_tree\<close> with the leaf count \<open>k\<close> has returned without an
  exception, a later call with another leaf count \<open>k2\<close> throws the error of the mismatch,
  naming \<open>k2\<close> and \<open>k\<close>, and leaves the tree as it was.
\<close>

theorem build_tree_conflict:
  assumes "build_tree mem1 k t = (None, t1)" and "k2 \<noteq> k"
  shows "build_tree mem2 k2 t1 = (Some (ConfigurationConflict k2 k), t1)"
  using build_tree_returns [OF assms(1)] assms(2) by (simp add: build_tree_def)

text \<open>C7 at three leaves, then five.\<close>

theorem build_tree_conflict_witness:
  "build_tree (\<lambda>_. True) 3 fresh_tree = (None, built 3) \<and> (5::nat) \<noteq> 3 \<and>
   build_tree (\<lambda>_. True) 5 (built 3) = (Some (ConfigurationConflict 5 3), built 3)"
proof -
  have h: "build_tree (\<lambda>_. True) 3 fresh_tree = (None, built 3)"
    by (simp add: build_tree_def fresh_tree_def add_leaf_nodes_eq pair_tournaments_eq 
      mk_tree_node_def Let_def u32_def tournament_rounds.simps upt_rec built_3)
  have n: "(5::nat) \<noteq> 3" by simp
  show ?thesis using h n build_tree_conflict [OF h n, of "\<lambda>_. True"] by simp
qed

text \<open>
  C8 as stated fails: when the third storage request (that of the first round) is refused for
  two leaves, the exception leaves a tree that is not the default-constructed one the call
  began with: \<open>_num_leaf_nodes\<close> is 2 already and \<open>nodes\<close> holds the two leaf nodes.
\<close>

theorem build_tree_failure_mutates:
  "fst (build_tree (\<lambda>i. i \<noteq> 2) 2 fresh_tree) = Some (OutOfMemory 2) \<and>
   snd (build_tree (\<lambda>i. i \<noteq> 2) 2 fresh_tree) \<noteq> fresh_tree \<and>
   num_leaf_nodes (snd (build_tree (\<lambda>i. i \<noteq> 2) 2 fresh_tree)) = 2 \<and>
   length (nodes (snd (build_tree (\<lambda>i. i \<noteq> 2) 2 fresh_tree))) = 2"
  by (simp add: build_tree_def fresh_tree_def add_leaf_nodes_eq Let_def tournament_rounds.simps upt_rec)

text \<open>
  C8, amended. Every exception of \<open>build_tree\<close> leaves \<open>_initialized\<close> and \<open>root_idx\<close> as
  they were. On an initialized tree the exception is the mismatch of leaf counts and the tree
  is unchanged; on an uninitialized tree it is the failed allocation, the tree stays
  uninitialized, and \<open>_num_leaf_nodes\<close> is the requested count.
\<close>

theorem build_tree_failure:
  assumes "build_tree mem k t = (Some e, t')"
  shows "initialized t' = initialized t \<and> root_idx t' = root_idx t \<and>
         (if initialized t
          then e = ConfigurationConflict k (num_leaf_nodes t) \<and> k \<noteq> num_leaf_nodes t \<and> t' = t
          else e = OutOfMemory k \<and> num_leaf_nodes t' = k)"
  using assms
  by (auto simp: build_tree_def Let_def split: if_splits prod.splits bool.splits)

text \<open>C8, amended, at the refused third request for two leaves.\<close>

theorem build_tree_failure_witness:
  "build_tree (\<lambda>i. i \<noteq> 2) 2 fresh_tree =
     (Some (OutOfMemory 2), snd (build_tree (\<lambda>i. i \<noteq> 2) 2 fresh_tree)) \<and>
   \<not> initialized (snd (build_tree (\<lambda>i. i \<noteq> 2) 2 fresh_tree)) \<and>
   num_leaf_nodes (snd (build_tree (\<lambda>i. i \<noteq> 2) 2 fresh_tree)) = 2"
proof -
  have h: "build_tree (\<lambda>i. i \<noteq> 2) 2 fresh_tree =
     (Some (OutOfMemory 2), snd (build_tree (\<lambda>i. i \<noteq> 2) 2 fresh_tree))"
    by (simp add: build_tree_def fresh_tree_def add_leaf_nodes_eq Let_def tournament_rounds.simps upt_rec)
  have "\<not> initialized fresh_tree" by (simp add: fresh_tree_def)
  with h build_tree_failure [OF h] show ?thesis by simp
qed

section \<open>Properties of learn\<close>

text \<open>
  C9. For every tree, base learner and example, \<open>learn\<close> throws the error of the missing
  implementation and leaves all three as they were.
\<close>

theorem learn_not_implemented:
  "fst (learn tree base ec) = Some NotImplemented \<and> snd (learn tree base ec) = (tree, base, ec)"
  by (simp add: learn_def)

section \<open>Properties of predict\<close>

lemma built_tree_ok:
  assumes "1 \<le> k" "k \<le> 2147483648"
  shows "tree_ok k (nodes (built k)) (root_idx (built k))"
proof -
  from assms have k': "k \<le> 4294967296" by simp
  from built_forest [of k] assms have f: "forest k (nodes (built k)) [root_idx (built k)]" by simp
  have len: "length (nodes (built k)) = 2 * k - 1" by (rule built_shape(1) [OF assms(1) k'])
  have "map u32 [0..<2 * k - 1] = [0..<2 * k - 1]"
    using assms(2) by (intro map_idI) (simp add: u32_small)
  with f len have ms: "mset (child_ids (drop k (nodes (built k)))) + {#root_idx (built k)#} = mset [0..<2 * k - 1]"
    unfolding forest_def by (metis mset.simps(1) mset.simps(2) add_mset_add_single union_mset_add_mset_right add.right_neutral)
  have ids: "node_id (nodes (built k) ! i) = i" if "i < 2 * k - 1" for i
    using built_shape(2) [OF assms(1) k' that] that assms(2) by (simp add: u32_small)
  show ?thesis
    unfolding tree_ok_def
    using assms(1) len ids built_shape(3) [OF assms(1) k'] built_children_below [OF assms] ms
    by blast
qed

lemma update_child_cell:
  assumes "c < 2 * k - 1" "length ns = 2 * k - 1" "is_leaf (ns ! c) = (c < k)"
    and "length (buffer st) = k - 1" "length (scores st) = k"
  shows "\<exists>st'. update_child ns k c p st = Some st' \<and>
           length (buffer st') = k - 1 \<and> length (scores st') = k \<and>
           (\<forall>c'. c' \<noteq> c \<longrightarrow> cell k st' c' = cell k st c') \<and>
           cell k st' c = (if c < k then Inl p
                           else Inr (fst (buffer st ! (c - k)) * p, snd (buffer st ! (c - k)) * p)) \<and>
           assigned st' = assigned st @ filter (\<lambda>c. c < k) [c]"
proof (cases "c < k")
  case True
  with assms have "update_child ns k c p st =
      Some (st\<lparr>scores := (scores st)[c := p], assigned := assigned st @ [c]\<rparr>)"
    by (simp add: update_child_def)
  with True assms show ?thesis by (auto simp: cell_def)
next
  case False
  with assms have i: "c - k < length (buffer st)" by simp
  with False assms have "update_child ns k c p st =
      Some (st\<lparr>buffer := (buffer st)[c - k := (fst (buffer st ! (c - k)) * p, snd (buffer st ! (c - k)) * p)]\<rparr>)"
    by (simp add: update_child_def helper_get_def split: prod.splits)
  with False i assms show ?thesis by (auto simp: cell_def)
qed

lemma tree_ok_distinct:
  assumes "tree_ok k ns rt"
  shows "distinct (child_ids (drop k ns) @ [rt])"
    and "set (child_ids (drop k ns) @ [rt]) = {0..<2 * k - 1}"
proof -
  from assms have "mset (child_ids (drop k ns) @ [rt]) = mset [0..<2 * k - 1]"
    by (simp add: tree_ok_def)
  then show "distinct (child_ids (drop k ns) @ [rt])"
    "set (child_ids (drop k ns) @ [rt]) = {0..<2 * k - 1}"
    by (metis distinct_upt mset_eq_imp_distinct_iff, metis mset_eq_setD set_upt)
qed

lemma child_ids_Nil [simp]: "child_ids [] = []"
  by (simp add: child_ids_def)

lemma child_ids_Cons: "child_ids (n # xs) = left_id n # right_id n # child_ids xs"
  by (simp add: child_ids_def)

lemma child_mem: "n \<in> set xs \<Longrightarrow> child d n \<in> set (child_ids xs)"
  by (cases d) (auto simp: child_ids_def)

lemma child_ids_memD: "c \<in> set (child_ids xs) \<Longrightarrow> \<exists>n d. n \<in> set xs \<and> c = child d n"
proof -
  assume "c \<in> set (child_ids xs)"
  then obtain n where n: "n \<in> set xs" "c = left_id n \<or> c = right_id n"
    by (auto simp: child_ids_def)
  then have "c = child GoLeft n \<or> c = child GoRight n" by simp
  with n(1) show ?thesis by blast
qed

lemma tree_ok_drop:
  assumes "tree_ok k ns rt" "k \<le> j" "j < 2 * k - 1"
  shows "drop j ns = ns ! j # drop (Suc j) ns"
    and "distinct (child_ids (drop j ns))"
proof -
  from assms have len: "length ns = 2 * k - 1" by (simp add: tree_ok_def)
  with assms(3) show "drop j ns = ns ! j # drop (Suc j) ns"
    by (simp add: Cons_nth_drop_Suc)
  have "drop k ns = take (j - k) (drop k ns) @ drop j ns"
    using assms(2) by (metis append_take_drop_id drop_drop le_add_diff_inverse2)
  then have "child_ids (drop k ns) = child_ids (take (j - k) (drop k ns)) @ child_ids (drop j ns)"
    by (metis child_ids_append)
  with tree_ok_distinct(1) [OF assms(1)] show "distinct (child_ids (drop j ns))"
    by simp
qed

lemma visit_node_cell:
  assumes ok: "tree_ok k ns rt" and j: "k \<le> j" "j < 2 * k - 1"
    and lens: "length (buffer st) = k - 1" "length (scores st) = k"
    and lr: "left_id (ns ! j) \<noteq> right_id (ns ! j)"
  shows "\<exists>st'. visit_node ns k (ns ! j) st = Some st' \<and>
           length (buffer st') = k - 1 \<and> length (scores st') = k \<and>
           (\<forall>c'. c' \<noteq> left_id (ns ! j) \<and> c' \<noteq> right_id (ns ! j) \<longrightarrow> cell k st' c' = cell k st c') \<and>
           (\<forall>d. cell k st' (child d (ns ! j)) =
              (if child d (ns ! j) < k then Inl (branch d (buffer st ! (j - k)))
               else Inr (fst (buffer st ! (child d (ns ! j) - k)) * branch d (buffer st ! (j - k)),
                         snd (buffer st ! (child d (ns ! j) - k)) * branch d (buffer st ! (j - k))))) \<and>
           assigned st' = assigned st @ filter (\<lambda>c. c < k) [left_id (ns ! j), right_id (ns ! j)]"
proof -
  define l where "l = left_id (ns ! j)"
  define r where "r = right_id (ns ! j)"
  obtain a b where ab: "buffer st ! (j - k) = (a, b)" by (cases "buffer st ! (j - k)") auto
  from ok have len: "length ns = 2 * k - 1"
    and shape: "\<And>i. i < 2 * k - 1 \<Longrightarrow> node_id (ns ! i) = i \<and> is_leaf (ns ! i) = (i < k)"
    and below: "\<And>i. k \<le> i \<Longrightarrow> i < 2 * k - 1 \<Longrightarrow> left_id (ns ! i) < i \<and> right_id (ns ! i) < i"
    by (simp_all add: tree_ok_def)
  from below [OF j] have lj: "l < j" and rj: "r < j" by (simp_all add: l_def r_def)
  from shape [OF j(2)] have idj: "node_id (ns ! j) = j" by simp
  have get0: "helper_get (buffer st) k j = Some (a, b)"
    using j lens ab by (simp add: helper_get_def)
  from lj j have l1: "l < 2 * k - 1" by simp
  from rj j have r1: "r < 2 * k - 1" by simp
  from update_child_cell [OF l1 len _ lens, of a] shape [OF l1]
  obtain st1 where st1: "update_child ns k l a st = Some st1"
    "length (buffer st1) = k - 1" "length (scores st1) = k"
    "\<And>c'. c' \<noteq> l \<Longrightarrow> cell k st1 c' = cell k st c'"
    "cell k st1 l = (if l < k then Inl a
                     else Inr (fst (buffer st ! (l - k)) * a, snd (buffer st ! (l - k)) * a))"
    "assigned st1 = assigned st @ filter (\<lambda>c. c < k) [l]"
    by blast
  have keep1: "buffer st1 ! (c - k) = buffer st ! (c - k)" if "c \<noteq> l" "k \<le> c" for c
    using st1(4) [OF that(1)] that(2) by (simp add: cell_def)
  have get1: "helper_get (buffer st1) k j = Some (a, b)"
    using j st1(2) ab keep1 [of j] lj by (simp add: helper_get_def)
  from update_child_cell [OF r1 len _ st1(2,3), of b] shape [OF r1]
  obtain st2 where st2: "update_child ns k r b st1 = Some st2"
    "length (buffer st2) = k - 1" "length (scores st2) = k"
    "\<And>c'. c' \<noteq> r \<Longrightarrow> cell k st2 c' = cell k st1 c'"
    "cell k st2 r = (if r < k then Inl b
                     else Inr (fst (buffer st1 ! (r - k)) * b, snd (buffer st1 ! (r - k)) * b))"
    "assigned st2 = assigned st1 @ filter (\<lambda>c. c < k) [r]"
    by blast
  have v: "visit_node ns k (ns ! j) st = Some st2"
    using get0 get1 st1(1) st2(1) by (simp add: visit_node_def idj l_def r_def)
  have ne: "l \<noteq> r" using lr by (simp add: l_def r_def)
  have cl: "cell k st2 l = (if l < k then Inl a
                     else Inr (fst (buffer st ! (l - k)) * a, snd (buffer st ! (l - k)) * a))"
    using st2(4) [of l] ne st1(5) by simp
  have cr: "cell k st2 r = (if r < k then Inl b
                     else Inr (fst (buffer st ! (r - k)) * b, snd (buffer st ! (r - k)) * b))"
    using st2(5) keep1 [of r] ne by auto
  have other: "cell k st2 c' = cell k st c'" if "c' \<noteq> l" "c' \<noteq> r" for c'
    using st2(4) [OF that(2)] st1(4) [OF that(1)] by simp
  have children: "cell k st2 (child d (ns ! j)) =
              (if child d (ns ! j) < k then Inl (branch d (buffer st ! (j - k)))
               else Inr (fst (buffer st ! (child d (ns ! j) - k)) * branch d (buffer st ! (j - k)),
                         snd (buffer st ! (child d (ns ! j) - k)) * branch d (buffer st ! (j - k))))" for d
    using cl cr ab by (cases d) (simp_all add: l_def r_def)
  have "assigned st2 = assigned st @ filter (\<lambda>c. c < k) [l, r]"
    using st1(6) st2(6) by simp
  with v st2(2,3) other children show ?thesis
    unfolding l_def r_def by blast
qed

lemma pass_inv_step:
  assumes ok: "tree_ok k ns rt" and inv: "pass_inv ns k raw (Suc j) st"
    and j: "k \<le> j" "j < 2 * k - 1"
  shows "\<exists>st'. visit_node ns k (ns ! j) st = Some st' \<and> pass_inv ns k raw j st'"
proof -
  define l where "l = left_id (ns ! j)"
  define r where "r = right_id (ns ! j)"
  define seen where "seen = child_ids (drop (Suc j) ns)"
  from ok have len: "length ns = 2 * k - 1"
    and below: "\<And>i. k \<le> i \<Longrightarrow> i < 2 * k - 1 \<Longrightarrow> left_id (ns ! i) < i \<and> right_id (ns ! i) < i"
    by (simp_all add: tree_ok_def)
  from inv have lens: "length (buffer st) = k - 1" "length (scores st) = k"
    and settled: "\<And>m d. Suc j \<le> m \<Longrightarrow> m < 2 * k - 1 \<Longrightarrow>
        cell k st (child d (ns ! m)) = target k raw (child d (ns ! m)) (branch d (buffer st ! (m - k)))"
    and fresh: "\<And>c. k \<le> c \<Longrightarrow> c < 2 * k - 1 \<Longrightarrow> c \<notin> set seen \<Longrightarrow>
        buffer st ! (c - k) = raw ! (c - k)"
    and asg: "assigned st = filter (\<lambda>c. c < k) (child_ids (rev (drop (Suc j) ns)))"
    by (simp_all add: pass_inv_def seen_def)
  have dj: "drop j ns = ns ! j # drop (Suc j) ns" by (rule tree_ok_drop(1) [OF ok j])
  then have cj: "child_ids (drop j ns) = l # r # seen"
    by (simp add: child_ids_Cons l_def r_def seen_def)
  with tree_ok_drop(2) [OF ok j] have dist: "l \<noteq> r" "l \<notin> set seen" "r \<notin> set seen"
    by auto
  from below [OF j] have lj: "l < j" and rj: "r < j" by (simp_all add: l_def r_def)
  from visit_node_cell [OF ok j lens] dist(1)
  obtain st' where st': "visit_node ns k (ns ! j) st = Some st'"
    "length (buffer st') = k - 1" "length (scores st') = k"
    "\<And>c'. c' \<noteq> l \<Longrightarrow> c' \<noteq> r \<Longrightarrow> cell k st' c' = cell k st c'"
    "\<And>d. cell k st' (child d (ns ! j)) =
              (if child d (ns ! j) < k then Inl (branch d (buffer st ! (j - k)))
               else Inr (fst (buffer st ! (child d (ns ! j) - k)) * branch d (buffer st ! (j - k)),
                         snd (buffer st ! (child d (ns ! j) - k)) * branch d (buffer st ! (j - k))))"
    "assigned st' = assigned st @ filter (\<lambda>c. c < k) [l, r]"
    unfolding l_def r_def by blast
  have keep: "buffer st' ! (c - k) = buffer st ! (c - k)" if "c \<noteq> l" "c \<noteq> r" "k \<le> c" for c
    using st'(4) [OF that(1,2)] that(3) by (simp add: cell_def)
  have child_lr: "child d (ns ! j) = l \<or> child d (ns ! j) = r" for d
    by (cases d) (simp_all add: l_def r_def)
  have child_j: "child d (ns ! j) \<notin> set seen" "child d (ns ! j) < j" for d
    using child_lr [of d] dist lj rj by auto
  have p1: "cell k st' (child d (ns ! m)) =
      target k raw (child d (ns ! m)) (branch d (buffer st' ! (m - k)))"
    if m: "j \<le> m" "m < 2 * k - 1" for m d
  proof (cases "m = j")
    case True
    have bj: "buffer st' ! (j - k) = buffer st ! (j - k)"
      using keep [of j] lj rj j by simp
    show ?thesis
    proof (cases "child d (ns ! j) < k")
      case c: True
      with st'(5) [of d] bj show ?thesis by (simp add: True target_def)
    next
      case c: False
      then have "buffer st ! (child d (ns ! j) - k) = raw ! (child d (ns ! j) - k)"
        using fresh [of "child d (ns ! j)"] child_j [of d] j by simp
      with st'(5) [of d] bj c show ?thesis by (simp add: True target_def)
    qed
  next
    case False
    with m have m': "Suc j \<le> m" by simp
    from m' m(2) len have "drop (Suc j) ns ! (m - Suc j) = ns ! m"
      "m - Suc j < length (drop (Suc j) ns)" by simp_all
    then have "ns ! m \<in> set (drop (Suc j) ns)"
      by (metis nth_mem)
    then have "child d (ns ! m) \<in> set seen"
      unfolding seen_def by (rule child_mem)
    with dist have ne: "child d (ns ! m) \<noteq> l" "child d (ns ! m) \<noteq> r" by auto
    have "buffer st' ! (m - k) = buffer st ! (m - k)"
      using keep [of m] lj rj m' j by simp
    with st'(4) [OF ne] settled [OF m' m(2), of d] show ?thesis by simp
  qed
  have p2: "buffer st' ! (c - k) = raw ! (c - k)"
    if "k \<le> c" "c < 2 * k - 1" "c \<notin> set (child_ids (drop j ns))" for c
    using that keep [of c] fresh [of c] by (simp add: cj)
  have "rev (drop j ns) = rev (drop (Suc j) ns) @ [ns ! j]" by (simp add: dj)
  then have p3: "assigned st' = filter (\<lambda>c. c < k) (child_ids (rev (drop j ns)))"
    using st'(6) asg by (simp add: child_ids_Cons l_def r_def)
  have "pass_inv ns k raw j st'"
    unfolding pass_inv_def using st'(2,3) p1 p2 p3 by blast
  with st'(1) show ?thesis by blast
qed

lemma propagate_internal:
  assumes ok: "tree_ok k ns rt" and inv: "pass_inv ns k raw j st"
    and j: "k \<le> j" "j \<le> 2 * k - 1"
  shows "\<exists>st'. propagate ns k (rev (take j ns)) st = Some st' \<and> pass_inv ns k raw k st'"
  using inv j
proof (induction "j - k" arbitrary: j st)
  case 0
  then have jk: "j = k" by simp
  from ok have len: "length ns = 2 * k - 1" and k1: "1 \<le> k"
    and shape: "\<And>i. i < 2 * k - 1 \<Longrightarrow> node_id (ns ! i) = i \<and> is_leaf (ns ! i) = (i < k)"
    by (simp_all add: tree_ok_def)
  have "Suc (k - 1) = k" "k - 1 < length ns" using len k1 by simp_all
  then have "take k ns = take (k - 1) ns @ [ns ! (k - 1)]"
    by (metis take_Suc_conv_app_nth)
  moreover have "is_leaf (ns ! (k - 1))" using shape [of "k - 1"] k1 by simp
  ultimately show ?case using "0.prems"(1) jk by simp
next
  case (Suc d)
  then have j': "k \<le> j - 1" "j - 1 < 2 * k - 1" "Suc (j - 1) = j" by simp_all
  from ok have len: "length ns = 2 * k - 1"
    and shape: "\<And>i. i < 2 * k - 1 \<Longrightarrow> node_id (ns ! i) = i \<and> is_leaf (ns ! i) = (i < k)"
    by (simp_all add: tree_ok_def)
  from pass_inv_step [OF ok _ j'(1,2)] Suc.prems(1) j'(3)
  obtain st1 where st1: "visit_node ns k (ns ! (j - 1)) st = Some st1" "pass_inv ns k raw (j - 1) st1"
    by auto
  have "take j ns = take (j - 1) ns @ [ns ! (j - 1)]"
    using j'(2,3) len by (metis take_Suc_conv_app_nth)
  moreover have "\<not> is_leaf (ns ! (j - 1))" using shape [OF j'(2)] j'(1) by simp
  moreover from Suc.hyps(2) have "d = (j - 1) - k" by simp
  from Suc.hyps(1) [OF this st1(2) j'(1)] j'(2)
  obtain st' where "propagate ns k (rev (take (j - 1) ns)) st1 = Some st'" "pass_inv ns k raw k st'"
    by auto
  ultimately show ?case using st1(1) by simp
qed

lemma run_scorer_snoc:
  "run_scorer base s (is @ [i]) =
     (case run_scorer base s is of
        (ps, s') \<Rightarrow> (case base s' i of (p, s'') \<Rightarrow> (ps @ [p], s'')))"
  by (induction "is" arbitrary: s) (auto split: prod.splits)

lemma length_run_scorer [simp]: "length (fst (run_scorer base s is)) = length is"
proof (induction "is" arbitrary: s)
  case Nil
  show ?case by simp
next
  case (Cons i "is")
  obtain p s1 where b: "base s i = (p, s1)" by (cases "base s i") auto
  obtain ps s2 where r: "run_scorer base s1 is = (ps, s2)" by (cases "run_scorer base s1 is") auto
  from Cons.IH [of s1] r have "length ps = length is" by simp
  with b r show ?case by simp
qed

lemma score_internal_nodes_eq:
  assumes "n \<le> INT_MAX" "idx \<le> n"
  shows "score_internal_nodes base n idx buf s =
     Some (buf @ fst (run_scorer base s [idx..<n]), snd (run_scorer base s [idx..<n]))"
  using assms
proof (induction base n idx buf s rule: score_internal_nodes.induct)
  case (1 base n idx buf s)
  show ?case
  proof (cases "idx < n")
    case False
    with "1.prems" show ?thesis by (simp add: score_internal_nodes.simps)
  next
    case True
    obtain p s' where b: "base s idx = (p, s')" by (cases "base s idx") auto
    from True "1.prems" have ne: "idx \<noteq> INT_MAX" by simp
    from True have up: "[idx..<n] = idx # [idx + 1..<n]" by (simp add: upt_rec)
    from True have "idx + 1 \<le> n" by simp
    from "1.IH" [OF True b [symmetric] ne "1.prems"(1) this]
    show ?thesis
      using True b ne
      by (subst score_internal_nodes.simps) (simp add: up split: prod.splits)
  qed
qed

lemma score_internal_nodes_overflow:
  assumes "INT_MAX < n" "idx \<le> INT_MAX"
  shows "score_internal_nodes base n idx buf s = None"
  using assms
proof (induction base n idx buf s rule: score_internal_nodes.induct)
  case (1 base n idx buf s)
  from "1.prems" have lt: "idx < n" by simp
  obtain p s' where b: "base s idx = (p, s')" by (cases "base s idx") auto
  show ?case
  proof (cases "idx = INT_MAX")
    case True
    with lt b show ?thesis by (subst score_internal_nodes.simps) simp
  next
    case False
    with "1.prems" have "idx + 1 \<le> INT_MAX" by simp
    from "1.IH" [OF lt b [symmetric] False "1.prems"(1) this]
    show ?thesis using lt b False by (subst score_internal_nodes.simps) simp
  qed
qed

lemma tree_ok_root:
  assumes ok: "tree_ok k ns rt" and k2: "2 \<le> k"
  shows "rt = 2 * k - 2"
proof (rule ccontr)
  assume ne: "rt \<noteq> 2 * k - 2"
  from k2 have in_range: "2 * k - 2 \<in> {0..<2 * k - 1}" by auto
  with tree_ok_distinct(2) [OF ok] ne have "2 * k - 2 \<in> set (child_ids (drop k ns))" by auto
  then obtain n d where n: "n \<in> set (drop k ns)" "2 * k - 2 = child d n"
    using child_ids_memD by blast
  from ok have len: "length ns = 2 * k - 1"
    and below: "\<And>i. k \<le> i \<Longrightarrow> i < 2 * k - 1 \<Longrightarrow> left_id (ns ! i) < i \<and> right_id (ns ! i) < i"
    by (simp_all add: tree_ok_def)
  from n(1) obtain i where i: "i < length (drop k ns)" "n = drop k ns ! i"
    by (metis in_set_conv_nth)
  then have "n = ns ! (k + i)" "k \<le> k + i" "k + i < 2 * k - 1" using len by simp_all
  with below [of "k + i"] have "child d n < k + i" by (cases d) simp_all
  with n(2) \<open>k + i < 2 * k - 1\<close> show False by simp
qed

lemma predict_pass_tree_ok:
  fixes base :: "('a::{zero,one,times}, 's) scorer"
  assumes ok: "tree_ok k (nodes t) rt" and nl: "num_leaf_nodes t = k"
    and k: "2 \<le> k" "k \<le> 2147483648"
  shows "\<exists>st. predict_pass base t s scores0 = Some (st, snd (run_scorer base s [0..<k - 1])) \<and>
           pass_inv (nodes t) k (fst (run_scorer base s [0..<k - 1])) k st"
proof -
  define raw where "raw = fst (run_scorer base s [0..<k - 1])"
  define s' where "s' = snd (run_scorer base s [0..<k - 1])"
  define st0 :: "'a pass_state" where
    "st0 = \<lparr>buffer = raw, scores = resize k scores0, assigned = []\<rparr>"
  from ok have len: "length (nodes t) = 2 * k - 1" by (simp add: tree_ok_def)
  have "length (nodes t) + 18446744073709551616 - num_leaf_nodes t = (k - 1) + 1 * 18446744073709551616"
    using len nl k by simp
  then have "(length (nodes t) + 18446744073709551616 - num_leaf_nodes t) mod 18446744073709551616 = k - 1"
    using k(2) by (simp only: mod_mult_self2) simp
  then have inc: "internal_node_count t = k - 1"
    using k(2) by (simp add: internal_node_count_def u32_def)
  have "k - 1 \<le> INT_MAX" using k by (simp add: INT_MAX_def)
  from score_internal_nodes_eq [OF this, of 0 base "[]" s]
  have sc: "score_internal_nodes base (k - 1) 0 [] s = Some (raw, s')"
    by (simp add: raw_def s'_def)
  have "pass_inv (nodes t) k raw (2 * k - 1) st0"
    using len by (auto simp: pass_inv_def st0_def raw_def resize_def)
  moreover have "k \<le> 2 * k - 1" "2 * k - 1 \<le> 2 * k - 1" using k by simp_all
  moreover have "take (2 * k - 1) (nodes t) = nodes t" using len by simp
  ultimately obtain st where st: "propagate (nodes t) k (rev (nodes t)) st0 = Some st"
    "pass_inv (nodes t) k raw k st"
    using propagate_internal [OF ok, of raw "2 * k - 1" st0] by auto
  have "predict_pass base t s scores0 = Some (st, s')"
    using k nl inc sc st(1)
    by (simp add: predict_pass_def leaf_node_count_def st0_def Let_def)
  with st(2) show ?thesis by (simp add: raw_def s'_def)
qed

lemma follow_snoc:
  "follow ns a (steps @ [(n, d)]) =
     (case follow ns a steps of
        None \<Rightarrow> None
      | Some m \<Rightarrow> if n = m \<and> m < length ns \<and> \<not> is_leaf (ns ! m) then Some (child d (ns ! m))
                  else None)"
  by (induction steps arbitrary: a) auto

lemma follow_snoc_Some:
  "follow ns a (steps @ [(n, d)]) = Some c \<longleftrightarrow>
     follow ns a steps = Some n \<and> n < length ns \<and> \<not> is_leaf (ns ! n) \<and> c = child d (ns ! n)"
  by (auto simp: follow_snoc split: option.splits)

lemma path_product_single [simp]: "path_product raw k [(n, d)] = branch d (raw ! (n - k))"
  by simp

lemma path_product_snoc:
  "steps \<noteq> [] \<Longrightarrow>
   path_product raw k (steps @ [(n, d)]) = branch d (raw ! (n - k)) * path_product raw k steps"
  by (cases steps) auto

lemma child_inj_list:
  assumes "distinct (child_ids xs)" "n \<in> set xs" "m \<in> set xs" "child d n = child e m"
  shows "n = m \<and> d = e"
  using assms
proof (induction xs)
  case Nil
  then show ?case by simp
next
  case (Cons x xs)
  from Cons.prems(1) have d: "left_id x \<noteq> right_id x" "left_id x \<notin> set (child_ids xs)"
    "right_id x \<notin> set (child_ids xs)" "distinct (child_ids xs)"
    by (simp_all add: child_ids_Cons)
  have cx: "child d' x = left_id x \<or> child d' x = right_id x" for d'
    by (cases d') simp_all
  show ?case
  proof (cases "n = x")
    case nx: True
    show ?thesis
    proof (cases "m = x")
      case True
      with nx Cons.prems(4) d(1) show ?thesis by (cases d; cases e) simp_all
    next
      case False
      with Cons.prems(3) have "child e m \<in> set (child_ids xs)" by (simp add: child_mem)
      with Cons.prems(4) nx cx [of d] d(2,3) show ?thesis by auto
    qed
  next
    case nx: False
    with Cons.prems(2) have n: "n \<in> set xs" by simp
    show ?thesis
    proof (cases "m = x")
      case True
      from n have "child d n \<in> set (child_ids xs)" by (simp add: child_mem)
      with Cons.prems(4) True cx [of e] d(2,3) show ?thesis by auto
    next
      case False
      with Cons.prems(3) have "m \<in> set xs" by simp
      from Cons.IH [OF d(4) n this Cons.prems(4)] show ?thesis .
    qed
  qed
qed

lemma tree_ok_internal_mem:
  assumes "tree_ok k ns rt" "k \<le> n" "n < 2 * k - 1"
  shows "ns ! n \<in> set (drop k ns)"
proof -
  from assms have "drop k ns ! (n - k) = ns ! n" "n - k < length (drop k ns)"
    by (simp_all add: tree_ok_def)
  then show ?thesis by (metis nth_mem)
qed

lemma tree_ok_child_inj:
  assumes ok: "tree_ok k ns rt" and n: "k \<le> n" "n < 2 * k - 1" and m: "k \<le> m" "m < 2 * k - 1"
    and eq: "child d (ns ! n) = child e (ns ! m)"
  shows "n = m \<and> d = e"
proof -
  from tree_ok_distinct(1) [OF ok] have "distinct (child_ids (drop k ns))" by simp
  from child_inj_list [OF this tree_ok_internal_mem [OF ok n] tree_ok_internal_mem [OF ok m] eq]
  have "ns ! n = ns ! m" "d = e" by simp_all
  moreover from ok n(2) m(2) have "node_id (ns ! n) = n" "node_id (ns ! m) = m"
    by (simp_all add: tree_ok_def)
  ultimately show ?thesis by metis
qed

lemma tree_ok_root_no_child:
  assumes ok: "tree_ok k ns rt" and n: "k \<le> n" "n < 2 * k - 1"
  shows "child d (ns ! n) \<noteq> rt"
proof -
  from tree_ok_distinct(1) [OF ok] have "rt \<notin> set (child_ids (drop k ns))" by simp
  with child_mem [OF tree_ok_internal_mem [OF ok n], of d] show ?thesis by metis
qed


lemma tree_ok_internal:
  assumes "tree_ok k ns rt" "n < length ns" "\<not> is_leaf (ns ! n)"
  shows "k \<le> n \<and> n < 2 * k - 1"
  using assms by (auto simp: tree_ok_def)

lemma tree_ok_child_less:
  assumes "tree_ok k ns rt" "k \<le> n" "n < 2 * k - 1"
  shows "child d (ns ! n) < n"
  using assms by (cases d) (simp_all add: tree_ok_def)


lemma follow_unique:
  assumes ok: "tree_ok k ns rt"
    and "follow ns rt steps = Some c" "follow ns rt steps' = Some c"
  shows "steps = steps'"
  using assms(2,3)
proof (induction steps arbitrary: c steps' rule: rev_induct)
  case Nil
  then have c: "c = rt" by simp
  show ?case
  proof (cases steps' rule: rev_cases)
    case Nil
    then show ?thesis by simp
  next
    case (snoc ys y)
    obtain m e where y: "y = (m, e)" by (cases y)
    from Nil.prems(2) have "m < length ns" "\<not> is_leaf (ns ! m)" "c = child e (ns ! m)"
      by (simp_all add: snoc y follow_snoc_Some)
    with tree_ok_root_no_child [OF ok, of m e] tree_ok_internal [OF ok, of m] c
    show ?thesis by simp
  qed
next
  case (snoc x steps)
  obtain n d where x: "x = (n, d)" by (cases x)
  from snoc.prems(1) have s: "follow ns rt steps = Some n" "n < length ns" "\<not> is_leaf (ns ! n)"
    "c = child d (ns ! n)" by (simp_all add: x follow_snoc_Some)
  note n = tree_ok_internal [OF ok s(2,3)]
  show ?case
  proof (cases steps' rule: rev_cases)
    case Nil
    with snoc.prems(2) have "c = rt" by simp
    with tree_ok_root_no_child [OF ok, of n d] n s(4) show ?thesis by simp
  next
    case (snoc ys y)
    obtain m e where y: "y = (m, e)" by (cases y)
    from snoc.prems(2) have t: "follow ns rt ys = Some m" "m < length ns" "\<not> is_leaf (ns ! m)"
      "c = child e (ns ! m)" by (simp_all add: snoc y follow_snoc_Some)
    note m = tree_ok_internal [OF ok t(2,3)]
    from tree_ok_child_inj [OF ok _ _ _ _, of n m d e] n m s(4) t(4)
    have eq: "n = m" "d = e" by simp_all
    from snoc.IH [OF s(1)] t(1) eq have "steps = ys" by simp
    with eq show ?thesis by (simp add: snoc x y)
  qed
qed

lemma follow_exists:
  assumes ok: "tree_ok k ns rt" and c: "c < 2 * k - 1"
  shows "\<exists>steps. follow ns rt steps = Some c"
  using c
proof (induction "2 * k - 1 - c" arbitrary: c rule: less_induct)
  case less
  show ?case
  proof (cases "c = rt")
    case True
    then have "follow ns rt [] = Some c" by simp
    then show ?thesis by blast
  next
    case False
    from less.prems have "c \<in> {0..<2 * k - 1}" by simp
    then have "c \<in> set (child_ids (drop k ns) @ [rt])"
      by (simp only: tree_ok_distinct(2) [OF ok])
    with False have "c \<in> set (child_ids (drop k ns))" by simp
    then obtain n d where n: "n \<in> set (drop k ns)" "c = child d n"
      using child_ids_memD by blast
    from ok have len: "length ns = 2 * k - 1" by (simp add: tree_ok_def)
    from n(1) obtain i where i: "i < length (drop k ns)" "n = drop k ns ! i"
      by (metis in_set_conv_nth)
    then have p: "n = ns ! (k + i)" "k \<le> k + i" "k + i < 2 * k - 1" using len by simp_all
    from tree_ok_child_less [OF ok p(2,3), of d] n(2) p(1) have lt: "c < k + i" by simp
    with p(3) have "2 * k - 1 - (k + i) < 2 * k - 1 - c" by simp
    from less.hyps [OF this p(3)] obtain steps where st: "follow ns rt steps = Some (k + i)"
      by blast
    from ok p(2,3) have "\<not> is_leaf (ns ! (k + i))" by (simp add: tree_ok_def)
    with st p len n(2) have "follow ns rt (steps @ [(k + i, d)]) = Some c"
      by (simp add: follow_snoc_Some)
    then show ?thesis by blast
  qed
qed

lemma pass_inv_path:
  fixes raw :: "('a::{one,times} \<times> 'a) list"
  assumes ok: "tree_ok k ns rt" and inv: "pass_inv ns k raw k st"
    and f: "follow ns rt steps = Some c" and ne: "steps \<noteq> []"
  shows "cell k st c = target k raw c (path_product raw k steps)"
  using f ne
proof (induction steps arbitrary: c rule: rev_induct)
  case Nil
  then show ?case by simp
next
  case (snoc x steps)
  obtain n d where x: "x = (n, d)" by (cases x)
  from snoc.prems(1) have s: "follow ns rt steps = Some n" "n < length ns" "\<not> is_leaf (ns ! n)"
    "c = child d (ns ! n)" by (simp_all add: x follow_snoc_Some)
  note n = tree_ok_internal [OF ok s(2,3)]
  from inv n have settled:
    "cell k st c = target k raw c (branch d (buffer st ! (n - k)))"
    by (simp add: pass_inv_def s(4))
  show ?case
  proof (cases "steps = []")
    case True
    with s(1) have "n = rt" by simp
    with tree_ok_distinct(1) [OF ok] have "n \<notin> set (child_ids (drop k ns))" by simp
    with inv n have "buffer st ! (n - k) = raw ! (n - k)" by (simp add: pass_inv_def)
    with settled True show ?thesis by (simp add: x)
  next
    case False
    from snoc.IH [OF s(1) False] n
    have "buffer st ! (n - k) = (fst (raw ! (n - k)) * path_product raw k steps,
                                 snd (raw ! (n - k)) * path_product raw k steps)"
      by (simp add: cell_def target_def)
    then have "branch d (buffer st ! (n - k)) = branch d (raw ! (n - k)) * path_product raw k steps"
      by (cases d) simp_all
    with settled show ?thesis by (simp add: x path_product_snoc [OF False])
  qed
qed

lemma built_0: "built 0 = \<lparr>nodes = [], root_idx = 0, num_leaf_nodes = 0, initialized = True\<rparr>"
  by (simp add: built_def build_tree_def fresh_tree_def)

lemma built_1:
  "built 1 = \<lparr>nodes = [\<lparr>node_id = 0, left_id = 0, right_id = 0, is_leaf = True\<rparr>],
              root_idx = 0, num_leaf_nodes = 1, initialized = True\<rparr>"
  by (simp add: built_def build_tree_def fresh_tree_def add_leaf_nodes_eq
      mk_tree_node_def Let_def u32_def tournament_rounds.simps)

lemma built_num_leaf_nodes: "k \<le> 4294967296 \<Longrightarrow> num_leaf_nodes (built k) = k"
  using built_forest [of k] by (cases "k = 0") (simp_all add: built_0)

lemma predict_paths:
  fixes base :: "('a::{zero,one,times}, 's) scorer"
  assumes k: "k \<le> 2147483648"
  shows "\<exists>st. predict_pass base (built k) s scores0 = Some (st, snd (run_scorer base s [0..<k - 1])) \<and>
           length (scores st) = k \<and>
           (\<forall>i<k. \<exists>steps. follow (nodes (built k)) (root_idx (built k)) steps = Some i \<and>
                      (\<forall>steps'. follow (nodes (built k)) (root_idx (built k)) steps' = Some i
                         \<longrightarrow> steps' = steps) \<and>
                      scores st ! i = path_product (fst (run_scorer base s [0..<k - 1])) k steps)"
proof -
  consider "k = 0" | "k = 1" | "2 \<le> k" by linarith
  then show ?thesis
  proof cases
    case 1
    then show ?thesis
      by (simp add: predict_pass_def leaf_node_count_def built_0 resize_def)
  next
    case 2
    have ok: "tree_ok 1 (nodes (built 1)) (root_idx (built 1))"
      by (rule built_tree_ok) simp_all
    have f: "follow (nodes (built 1)) (root_idx (built 1)) [] = Some 0"
      unfolding built_1 by simp
    with follow_unique [OF ok]
    have u: "\<forall>steps'. follow (nodes (built 1)) (root_idx (built 1)) steps' = Some 0 \<longrightarrow> steps' = []"
      by blast
    define st :: "'a pass_state" where
      "st = \<lparr>buffer = [], scores = (resize 1 scores0)[0 := 1], assigned = [0]\<rparr>"
    have p: "predict_pass base (built 1) s scores0 = Some (st, s)"
      by (simp add: predict_pass_def leaf_node_count_def built_num_leaf_nodes st_def)
    have l: "length (scores st) = 1" by (cases scores0) (simp_all add: st_def resize_def)
    then have v: "scores st ! 0 = 1" by (simp add: st_def)
    have "\<exists>steps. follow (nodes (built 1)) (root_idx (built 1)) steps = Some 0 \<and>
                      (\<forall>steps'. follow (nodes (built 1)) (root_idx (built 1)) steps' = Some 0
                         \<longrightarrow> steps' = steps) \<and>
                      scores st ! 0 = path_product (fst (run_scorer base s [0..<1 - 1])) 1 steps"
      using f u v by (intro exI [of _ "[]"]) simp
    with p l show ?thesis unfolding 2 by simp
  next
    case 3
    define ns where "ns = nodes (built k)"
    define rt where "rt = root_idx (built k)"
    define raw where "raw = fst (run_scorer base s [0..<k - 1])"
    from 3 k have ok: "tree_ok k ns rt"
      unfolding ns_def rt_def by (intro built_tree_ok) simp_all
    from k have nl: "num_leaf_nodes (built k) = k" by (simp add: built_num_leaf_nodes)
    from predict_pass_tree_ok [OF ok [unfolded ns_def] nl 3 k, of base s scores0]
    obtain st where st: "predict_pass base (built k) s scores0 = Some (st, snd (run_scorer base s [0..<k - 1]))"
      "pass_inv ns k raw k st"
      unfolding ns_def raw_def by blast
    from st(2) have len: "length (scores st) = k" by (simp add: pass_inv_def)
    have "\<exists>steps. follow ns rt steps = Some i \<and>
                      (\<forall>steps'. follow ns rt steps' = Some i \<longrightarrow> steps' = steps) \<and>
                      scores st ! i = path_product raw k steps" if i: "i < k" for i
    proof -
      from i have "i < 2 * k - 1" by simp
      from follow_exists [OF ok this] obtain steps where f: "follow ns rt steps = Some i" by blast
      from tree_ok_root [OF ok 3] i 3 have "i \<noteq> rt" by simp
      with f have ne: "steps \<noteq> []" by auto
      from pass_inv_path [OF ok st(2) f ne] i have "scores st ! i = path_product raw k steps"
        by (simp add: cell_def target_def)
      with f follow_unique [OF ok _ f] show ?thesis by blast
    qed
    with st(1) len show ?thesis unfolding ns_def rt_def raw_def by blast
  qed
qed

text \<open>
  C1, amended to the leaf counts up to \<open>2^31\<close>. For every leaf count \<open>k \<le> 2^31\<close>, every base
  learner and every former content of the thread-local vector, \<open>predict\<close> on the built tree
  returns a vector of \<open>k\<close> scores, having called the base learner for the indices
  \<open>0..k-2\<close>; every leaf \<open>i\<close> is reached from the root by exactly one path, and the score of
  \<open>i\<close> is the product along that path of the answers of the base learner, the left
  component of a node's pair where the path goes to \<open>left_id\<close>, the right one where it goes to
  \<open>right_id\<close>. For \<open>k = 0\<close> the vector is empty; for \<open>k = 1\<close> the path is empty and the
  vector is \<open>[1]\<close>.
\<close>

theorem predict_path_products:
  fixes base :: "('a::{zero,one,times}, 's) scorer"
  assumes "k \<le> 2147483648"
  shows "\<exists>sc. predict base (built k) s scores0 = Some (sc, snd (run_scorer base s [0..<k - 1])) \<and>
           length sc = k \<and>
           (\<forall>i<k. \<exists>steps. follow (nodes (built k)) (root_idx (built k)) steps = Some i \<and>
                      (\<forall>steps'. follow (nodes (built k)) (root_idx (built k)) steps' = Some i
                         \<longrightarrow> steps' = steps) \<and>
                      sc ! i = path_product (fst (run_scorer base s [0..<k - 1])) k steps)"
proof -
  from predict_paths [OF assms, of base s scores0] obtain st where
    st: "predict_pass base (built k) s scores0 = Some (st, snd (run_scorer base s [0..<k - 1]))"
      "length (scores st) = k"
      "\<forall>i<k. \<exists>steps. follow (nodes (built k)) (root_idx (built k)) steps = Some i \<and>
                      (\<forall>steps'. follow (nodes (built k)) (root_idx (built k)) steps' = Some i
                         \<longrightarrow> steps' = steps) \<and>
                      scores st ! i = path_product (fst (run_scorer base s [0..<k - 1])) k steps"
    by blast
  from st(1) have "predict base (built k) s scores0 = Some (scores st, snd (run_scorer base s [0..<k - 1]))"
    by (simp add: predict_def)
  with st(2,3) show ?thesis by blast
qed

lemma sum_list_mset_cong:
  fixes w :: "nat \<Rightarrow> 'a::comm_monoid_add"
  assumes "mset xs = mset ys"
  shows "sum_list (map w xs) = sum_list (map w ys)"
proof -
  have "sum_list (map w xs) = sum_mset (image_mset w (mset xs))"
    by (metis mset_map sum_mset_sum_list)
  also have "\<dots> = sum_mset (image_mset w (mset ys))" by (simp add: assms)
  also have "\<dots> = sum_list (map w ys)" by (metis mset_map sum_mset_sum_list)
  finally show ?thesis .
qed

lemma sum_list_child_ids:
  fixes w :: "nat \<Rightarrow> 'a::comm_monoid_add"
  shows "sum_list (map w (child_ids xs)) = sum_list (map (\<lambda>n. w (left_id n) + w (right_id n)) xs)"
  by (induction xs) (simp_all add: child_ids_Cons add.assoc)

lemma tree_ok_drop_map:
  assumes "tree_ok k ns rt"
  shows "drop k ns = map (\<lambda>i. ns ! i) [k..<2 * k - 1]"
proof -
  from assms have len: "length ns = 2 * k - 1" by (simp add: tree_ok_def)
  show ?thesis
    by (rule nth_equalityI) (simp_all add: len)
qed

lemma pass_inv_sum:
  fixes raw :: "('a::comm_ring_1 \<times> 'a) list"
  assumes ok: "tree_ok k ns rt" and k2: "2 \<le> k" and inv: "pass_inv ns k raw k st"
    and lraw: "length raw = k - 1" and contract: "\<forall>p\<in>set raw. fst p + snd p = 1"
  shows "sum_list (scores st) = 1"
proof -
  define w where "w c = (if c < k then scores st ! c
                         else fst (buffer st ! (c - k)) + snd (buffer st ! (c - k)))" for c
  from inv have lens: "length (buffer st) = k - 1" "length (scores st) = k"
    and settled: "\<And>m d. k \<le> m \<Longrightarrow> m < 2 * k - 1 \<Longrightarrow>
        cell k st (child d (ns ! m)) = target k raw (child d (ns ! m)) (branch d (buffer st ! (m - k)))"
    and fresh: "\<And>c. k \<le> c \<Longrightarrow> c < 2 * k - 1 \<Longrightarrow> c \<notin> set (child_ids (drop k ns)) \<Longrightarrow>
        buffer st ! (c - k) = raw ! (c - k)"
    by (simp_all add: pass_inv_def)
  have unit: "fst (raw ! (c - k)) + snd (raw ! (c - k)) = 1" if "k \<le> c" "c < 2 * k - 1" for c
  proof -
    from that lraw have "raw ! (c - k) \<in> set raw" by simp
    with contract show ?thesis by blast
  qed
  have handed: "w (child d (ns ! m)) = branch d (buffer st ! (m - k))"
    if m: "k \<le> m" "m < 2 * k - 1" for m d
  proof (cases "child d (ns ! m) < k")
    case True
    with settled [OF m, of d] show ?thesis by (simp add: w_def cell_def target_def)
  next
    case False
    from tree_ok_child_less [OF ok m, of d] m have c: "k \<le> child d (ns ! m)" "child d (ns ! m) < 2 * k - 1"
      using False by simp_all
    from settled [OF m, of d] False
    have "w (child d (ns ! m)) =
        fst (raw ! (child d (ns ! m) - k)) * branch d (buffer st ! (m - k)) +
        snd (raw ! (child d (ns ! m) - k)) * branch d (buffer st ! (m - k))"
      by (simp add: w_def cell_def target_def)
    also have "\<dots> = (fst (raw ! (child d (ns ! m) - k)) + snd (raw ! (child d (ns ! m) - k)))
        * branch d (buffer st ! (m - k))"
      by (simp add: distrib_right)
    finally show ?thesis by (simp add: unit [OF c])
  qed
  have node: "w (left_id (ns ! m)) + w (right_id (ns ! m)) = w m" if m: "k \<le> m" "m < 2 * k - 1" for m
    using handed [OF m, of GoLeft] handed [OF m, of GoRight] m by (simp add: w_def)
  have "sum_list (map w (child_ids (drop k ns))) =
      sum_list (map (\<lambda>m. w (left_id (ns ! m)) + w (right_id (ns ! m))) [k..<2 * k - 1])"
    by (simp add: sum_list_child_ids tree_ok_drop_map [OF ok] o_def)
  also have "\<dots> = sum_list (map w [k..<2 * k - 1])"
    by (rule arg_cong [where f = sum_list], rule map_cong) (simp_all add: node)
  finally have inner: "sum_list (map w (child_ids (drop k ns))) = sum_list (map w [k..<2 * k - 1])" .
  from ok have "mset (child_ids (drop k ns) @ [rt]) = mset [0..<2 * k - 1]"
    by (simp add: tree_ok_def)
  from sum_list_mset_cong [OF this, of w]
  have "sum_list (map w (child_ids (drop k ns))) + w rt = sum_list (map w [0..<2 * k - 1])"
    by simp
  also have "[0..<2 * k - 1] = [0..<k] @ [k..<2 * k - 1]"
    using upt_add_eq_append [of 0 k "k - 1"] k2 by (simp add: mult_2)
  finally have "sum_list (map w [k..<2 * k - 1]) + w rt =
      sum_list (map w [0..<k]) + sum_list (map w [k..<2 * k - 1])"
    by (simp add: inner)
  then have root_sum: "w rt = sum_list (map w [0..<k])"
    by (simp add: add.commute)
  have r: "rt = 2 * k - 2" by (rule tree_ok_root [OF ok k2])
  with k2 have rk: "k \<le> rt" "rt < 2 * k - 1" by simp_all
  from tree_ok_distinct(1) [OF ok] have "rt \<notin> set (child_ids (drop k ns))" by simp
  from fresh [OF rk this] have "w rt = 1" using rk unit [OF rk] by (simp add: w_def)
  moreover have "map w [0..<k] = scores st"
    by (rule nth_equalityI) (simp_all add: lens w_def)
  ultimately show ?thesis using root_sum by simp
qed

lemma predict_pass_built:
  fixes base :: "('a::{zero,one,times}, 's) scorer"
  assumes k: "2 \<le> k" "k \<le> 2147483648"
  shows "\<exists>st. predict_pass base (built k) s scores0 = Some (st, snd (run_scorer base s [0..<k - 1])) \<and>
           pass_inv (nodes (built k)) k (fst (run_scorer base s [0..<k - 1])) k st"
proof -
  from k have ok: "tree_ok k (nodes (built k)) (root_idx (built k))"
    by (intro built_tree_ok) simp_all
  from k have nl: "num_leaf_nodes (built k) = k" by (simp add: built_num_leaf_nodes)
  from predict_pass_tree_ok [OF ok nl k] show ?thesis .
qed

lemma internal_node_count_built:
  assumes "k \<le> 4294967296"
  shows "internal_node_count (built k) = k - 1"
proof (cases "k = 0")
  case True
  then show ?thesis by (simp add: built_0 internal_node_count_def u32_def)
next
  case False
  with assms have k1: "1 \<le> k" "k \<le> 4294967296" by simp_all
  from k1 have nl: "num_leaf_nodes (built k) = k" by (simp add: built_num_leaf_nodes)
  have len: "length (nodes (built k)) = 2 * k - 1" by (rule built_shape(1) [OF k1])
  have "length (nodes (built k)) + 18446744073709551616 - num_leaf_nodes (built k)
      = (k - 1) + 1 * 18446744073709551616"
    using len nl k1 by simp
  then have "(length (nodes (built k)) + 18446744073709551616 - num_leaf_nodes (built k))
      mod 18446744073709551616 = k - 1"
    using assms by (simp only: mod_mult_self2) simp
  then show ?thesis
    using assms False by (simp add: internal_node_count_def u32_def)
qed

lemma predict_pass_overflow:
  fixes base :: "('a::{zero,one,times}, 's) scorer"
  assumes k: "2147483648 < k" "k < 4294967296"
  shows "predict_pass base (built k) s scores0 = None"
proof -
  from k have nl: "num_leaf_nodes (built k) = k" by (simp add: built_num_leaf_nodes)
  from k have inc: "internal_node_count (built k) = k - 1"
    by (intro internal_node_count_built) simp
  have "score_internal_nodes base (k - 1) 0 [] s = None"
    by (rule score_internal_nodes_overflow) (use k in \<open>simp_all add: INT_MAX_def\<close>)
  with k nl inc show ?thesis
    by (simp add: predict_pass_def leaf_node_count_def Let_def)
qed

lemma run_scorer_logged:
  "run_scorer (logged base) (s, calls) is =
     (fst (run_scorer base s is), (snd (run_scorer base s is), calls @ is))"
proof (induction "is" arbitrary: s calls)
  case Nil
  show ?case by simp
next
  case (Cons i "is")
  obtain p s1 where b: "base s i = (p, s1)" by (cases "base s i") auto
  obtain ps s2 where r: "run_scorer base s1 is = (ps, s2)" by (cases "run_scorer base s1 is") auto
  from b have lb: "logged base (s, calls) i = (p, (s1, calls @ [i]))" by (simp add: logged_def)
  from Cons.IH [of s1 "calls @ [i]"] r b lb show ?case by simp
qed



text \<open>
  In exact arithmetic no product is rounded: with scores in a commutative ring (the real
  numbers, say), for every leaf count \<open>k\<close> with \<open>1 \<le> k \<le> 2^31\<close> and every base learner
  whose answers at the internal nodes are pairs that add up to \<open>1\<close>, the scores that
  \<open>predict\<close> returns add up to \<open>1\<close>.
\<close>

lemma predict_scores_sum_in_ring:
  fixes base :: "('a::comm_ring_1, 's) scorer"
  assumes "1 \<le> k" and "k \<le> 2147483648"
    and "\<forall>p\<in>set (fst (run_scorer base s [0..<k - 1])). fst p + snd p = 1"
  shows "\<exists>sc s'. predict base (built k) s scores0 = Some (sc, s') \<and> length sc = k \<and> sum_list sc = 1"
proof (cases "k = 1")
  case True
  have "predict base (built 1) s scores0 = Some ((resize 1 scores0)[0 := 1], s)"
    by (simp add: predict_def predict_pass_def leaf_node_count_def built_num_leaf_nodes)
  moreover have "(resize 1 scores0)[0 := 1] = [1]"
    by (cases scores0) (simp_all add: resize_def)
  ultimately show ?thesis unfolding True by simp
next
  case False
  with assms have k: "2 \<le> k" "k \<le> 2147483648" by simp_all
  from predict_pass_built [OF k, of base s scores0] obtain st where
    st: "predict_pass base (built k) s scores0 = Some (st, snd (run_scorer base s [0..<k - 1]))"
      "pass_inv (nodes (built k)) k (fst (run_scorer base s [0..<k - 1])) k st"
    by blast
  from k have ok: "tree_ok k (nodes (built k)) (root_idx (built k))"
    by (intro built_tree_ok) simp_all
  have "sum_list (scores st) = 1"
    by (rule pass_inv_sum [OF ok k(1) st(2) _ assms(3)]) simp
  moreover from st(2) have "length (scores st) = k" by (simp add: pass_inv_def)
  moreover from st(1) have "predict base (built k) s scores0 =
      Some (scores st, snd (run_scorer base s [0..<k - 1]))"
    by (simp add: predict_def)
  ultimately show ?thesis by blast
qed

text \<open>
  C4, amended to the leaf counts up to \<open>2^31\<close>. For every leaf count \<open>k \<le> 2^31\<close>,
  \<open>internal_node_count\<close> is \<open>k - 1\<close> (\<open>0\<close> for \<open>k \<le> 1\<close>), and one call of \<open>predict\<close> calls
  the base learner with exactly the indices \<open>0, 1, .., k - 2\<close>, once each and in this order:
  a base learner that records its calls has recorded this list when \<open>predict\<close> returns, and
  is otherwise in the state that these calls in this order leave. The index \<open>idx\<close> stands
  for the internal node \<open>k + idx\<close>.
\<close>

theorem predict_scorer_calls:
  fixes base :: "('a::{zero,one,times}, 's) scorer"
  assumes "k \<le> 2147483648"
  shows "internal_node_count (built k) = k - 1 \<and>
         (\<exists>sc. predict (logged base) (built k) (s, []) scores0 =
                  Some (sc, snd (run_scorer base s [0..<k - 1]), [0..<k - 1]))"
proof -
  from predict_paths [OF assms, of "logged base" "(s, [])" scores0] obtain st where
    "predict_pass (logged base) (built k) (s, []) scores0 =
       Some (st, snd (run_scorer (logged base) (s, []) [0..<k - 1]))"
    by blast
  then have "predict (logged base) (built k) (s, []) scores0 =
      Some (scores st, snd (run_scorer base s [0..<k - 1]), [0..<k - 1])"
    by (simp add: predict_def run_scorer_logged)
  moreover from assms have "internal_node_count (built k) = k - 1"
    by (intro internal_node_count_built) simp
  ultimately show ?thesis by blast
qed

lemma filter_less_upt: "k \<le> n \<Longrightarrow> filter (\<lambda>c. c < k) [0..<n] = [0..<k]"
proof -
  assume "k \<le> n"
  then have "[0..<n] = [0..<k] @ [k..<n]"
    using upt_add_eq_append [of 0 k "n - k"] by simp
  then show ?thesis by simp
qed

lemma mset_child_ids_rev: "mset (child_ids (rev xs)) = mset (child_ids xs)"
  by (induction xs) (simp_all add: child_ids_Cons)

text \<open>
  C10, amended to the leaf counts up to \<open>2^31\<close>. For every leaf count \<open>k\<close> with \<open>2 \<le> k \<le> 2^31\<close>,
  the reverse pass assigns to every index below \<open>k\<close> of \<open>scores\<close> exactly once (the list of
  the assigned indices has no repetition and holds exactly the indices below \<open>k\<close>), every
  leaf being a child of internal nodes exactly once; and the vector returned does not depend
  on what the thread-local vector held before the call.
\<close>

theorem predict_assigns_each_score_once:
  fixes base :: "('a::{zero,one,times}, 's) scorer"
  assumes "2 \<le> k" and "k \<le> 2147483648"
  shows "\<exists>st s'. predict_pass base (built k) s scores0 = Some (st, s') \<and>
           distinct (assigned st) \<and> set (assigned st) = {..<k} \<and>
           (\<forall>i<k. count_list (child_ids (drop k (nodes (built k)))) i = 1) \<and>
           (\<forall>scores1. predict base (built k) s scores1 = Some (scores st, s'))"
proof -
  define ns where "ns = nodes (built k)"
  define rt where "rt = root_idx (built k)"
  define raw where "raw = fst (run_scorer base s [0..<k - 1])"
  define s' where "s' = snd (run_scorer base s [0..<k - 1])"
  from assms have ok: "tree_ok k ns rt"
    unfolding ns_def rt_def by (intro built_tree_ok) simp_all
  from predict_pass_built [OF assms, of base s scores0] obtain st where
    st: "predict_pass base (built k) s scores0 = Some (st, s')" "pass_inv ns k raw k st"
    unfolding ns_def raw_def s'_def by blast
  have r: "rt = 2 * k - 2" by (rule tree_ok_root [OF ok assms(1)])
  from ok have "mset (child_ids (drop k ns)) + {#rt#} = mset [0..<2 * k - 1]"
    by (simp add: tree_ok_def)
  then have "filter_mset (\<lambda>c. c < k) (mset (child_ids (drop k ns)) + {#rt#})
      = mset (filter (\<lambda>c. c < k) [0..<2 * k - 1])"
    by simp
  moreover have "\<not> rt < k" using r assms(1) by simp
  ultimately have "filter_mset (\<lambda>c. c < k) (mset (child_ids (drop k ns))) = mset [0..<k]"
    using assms(1) by (simp add: filter_less_upt)
  moreover from st(2) have "assigned st = filter (\<lambda>c. c < k) (child_ids (rev (drop k ns)))"
    by (simp add: pass_inv_def)
  ultimately have ms: "mset (assigned st) = mset [0..<k]"
    by (simp add: mset_child_ids_rev)
  then have d: "distinct (assigned st)" by (metis distinct_upt mset_eq_imp_distinct_iff)
  from ms have e: "set (assigned st) = {..<k}" by (metis mset_eq_setD set_upt atLeast0LessThan)
  have same: "predict base (built k) s scores1 = Some (scores st, s')" for scores1
  proof -
    from predict_pass_built [OF assms, of base s scores1] obtain st1 where
      st1: "predict_pass base (built k) s scores1 = Some (st1, s')" "pass_inv ns k raw k st1"
      unfolding ns_def raw_def s'_def by blast
    have "scores st1 = scores st"
    proof (rule nth_equalityI)
      from st(2) st1(2) show "length (scores st1) = length (scores st)" by (simp add: pass_inv_def)
    next
      fix i assume "i < length (scores st1)"
      with st1(2) have i: "i < k" by (simp add: pass_inv_def)
      then have "i < 2 * k - 1" by simp
      from follow_exists [OF ok this] obtain steps where f: "follow ns rt steps = Some i" by blast
      from r i assms(1) have "i \<noteq> rt" by simp
      with f have ne: "steps \<noteq> []" by auto
      from pass_inv_path [OF ok st(2) f ne] pass_inv_path [OF ok st1(2) f ne] i
      show "scores st1 ! i = scores st ! i" by (simp add: cell_def target_def)
    qed
    with st1(1) show ?thesis by (simp add: predict_def)
  qed
  have once: "count_list (child_ids (drop k ns)) i = 1" if i: "i < k" for i
  proof -
    from ok have "count (mset (child_ids (drop k ns)) + {#rt#}) i = count (mset [0..<2 * k - 1]) i"
      by (simp add: tree_ok_def)
    moreover have "count (mset [0..<2 * k - 1]) i = 1"
      using i distinct_count_atmost_1 [of "[0..<2 * k - 1]"] by simp
    moreover have "i \<noteq> rt" using r i assms(1) by simp
    ultimately show ?thesis by (simp add: count_mset)
  qed
  from st(1) d e once same show ?thesis unfolding ns_def by blast
qed

section \<open>The scenario of four leaves\<close>

text \<open>The tree of four leaves and the run of \<open>predict\<close> on it with the base learner
  \<open>scenario\<close>.\<close>

lemma built_4:
  "built 4 = \<lparr>nodes = [\<lparr>node_id = 0, left_id = 0, right_id = 0, is_leaf = True\<rparr>,
                       \<lparr>node_id = 1, left_id = 0, right_id = 0, is_leaf = True\<rparr>,
                       \<lparr>node_id = 2, left_id = 0, right_id = 0, is_leaf = True\<rparr>,
                       \<lparr>node_id = 3, left_id = 0, right_id = 0, is_leaf = True\<rparr>,
                       \<lparr>node_id = 4, left_id = 0, right_id = 1, is_leaf = False\<rparr>,
                       \<lparr>node_id = 5, left_id = 2, right_id = 3, is_leaf = False\<rparr>,
                       \<lparr>node_id = 6, left_id = 4, right_id = 5, is_leaf = False\<rparr>],
              root_idx = 6, num_leaf_nodes = 4, initialized = True\<rparr>"
  by (simp add: built_def build_tree_def fresh_tree_def add_leaf_nodes_eq pair_tournaments_eq 
      mk_tree_node_def Let_def u32_def tournament_rounds.simps upt_rec)

lemma run_scenario:
  "run_scorer scenario () [0..<3] = ([(0.6, 0.4), (0.3, 0.7), (0.9, 0.1)], ())"
  by (simp add: scenario_def upt_rec)

lemma score_scenario:
  "score_internal_nodes scenario 3 0 [] () = Some ([(0.6, 0.4), (0.3, 0.7), (0.9, 0.1)], ())"
  using score_internal_nodes_eq [of 3 0 scenario "[]" "()"] by (simp add: run_scenario INT_MAX_def)

lemma length_resize [simp]: "length (resize n xs) = n"
  by (simp add: resize_def)

lemma resize_4: "\<exists>a b c d. resize 4 xs = [a, b, c, d]"
proof -
  have "length (resize 4 xs) = 4" by simp
  then obtain a r1 where 1: "resize 4 xs = a # r1" "length r1 = 3"
    by (cases "resize 4 xs") simp_all
  then obtain b r2 where 2: "r1 = b # r2" "length r2 = 2" by (cases r1) simp_all
  then obtain c r3 where 3: "r2 = c # r3" "length r3 = 1" by (cases r2) simp_all
  then obtain d where 4: "r3 = [d]" by (cases r3) simp_all
  from 1 2 3 4 show ?thesis by simp
qed

lemma predict_pass_scenario:
  "predict_pass scenario (built 4) () scores0 =
     Some (\<lparr>buffer = [(0.54, 0.36), (0.03, 0.07), (0.9, 0.1)],
            scores = [0.54, 0.36, 0.03, 0.07], assigned = [2, 3, 0, 1]\<rparr>, ())"
proof -
  from resize_4 [of scores0] obtain a b c d where r: "resize 4 scores0 = [a, b, c, d]" by blast
  show ?thesis
    by (simp add: predict_pass_def leaf_node_count_def internal_node_count_def u32_def built_4
        score_scenario visit_node_def update_child_def helper_get_def Let_def r)
qed

lemma predict_scenario:
  "predict scenario (built 4) () scores0 = Some ([0.54, 0.36, 0.03, 0.07], ())"
  by (simp add: predict_def predict_pass_scenario)

lemma follow_4:
  "follow (nodes (built 4)) (root_idx (built 4)) [(6, GoLeft), (4, GoLeft)] = Some 0"
  "follow (nodes (built 4)) (root_idx (built 4)) [(6, GoLeft), (4, GoRight)] = Some 1"
  "follow (nodes (built 4)) (root_idx (built 4)) [(6, GoRight), (5, GoLeft)] = Some 2"
  "follow (nodes (built 4)) (root_idx (built 4)) [(6, GoRight), (5, GoRight)] = Some 3"
  by (simp_all add: built_4)

text \<open>C1 at the scenario of four leaves: the scores, and the path and the product of leaf 2.\<close>

theorem predict_path_products_witness:
  "(4::nat) \<le> 2147483648 \<and>
   predict scenario (built 4) () [] = Some ([0.54, 0.36, 0.03, 0.07], ()) \<and>
   follow (nodes (built 4)) (root_idx (built 4)) [(6, GoRight), (5, GoLeft)] = Some 2 \<and>
   path_product (fst (run_scorer scenario () [0..<4 - 1])) 4 [(6, GoRight), (5, GoLeft)] = 0.03"
proof -
  have h: "(4::nat) \<le> 2147483648" by simp
  from predict_path_products [OF h, of scenario "()" "[]"] obtain sc where
    "predict scenario (built 4) () [] = Some (sc, snd (run_scorer scenario () [0..<4 - 1]))"
    by blast
  then have "predict scenario (built 4) () [] = Some ([0.54, 0.36, 0.03, 0.07], ())"
    by (simp add: predict_scenario)
  moreover have "path_product (fst (run_scorer scenario () [0..<4 - 1])) 4 [(6, GoRight), (5, GoLeft)]
      = 0.03"
    by (simp add: run_scenario)
  ultimately show ?thesis using h follow_4(3) by blast
qed

text \<open>
  C1 as stated, for every leaf count, fails at the \<open>uint32_t\<close> leaf count \<open>2^31 + 1\<close>: the
  tree has \<open>2^31\<close> internal nodes, the \<open>int\<close> index of the scoring loop is incremented at
  \<open>INT_MAX\<close>, and \<open>predict\<close> returns no vector of scores.
\<close>

theorem predict_undefined_beyond_int:
  "predict (\<lambda>s idx. ((1 :: int, 0 :: int), s)) (built 2147483649) () [] = None"
  by (simp add: predict_def predict_pass_overflow)

text \<open>
  C3 as stated, for every leaf count from 1 on, fails in exact arithmetic as well, at the leaf
  count \<open>2^31 + 1\<close> with a base learner that answers \<open>(1, 0)\<close> everywhere: no vector of
  sum \<open>1\<close> is returned.
\<close>

theorem predict_no_sum_beyond_int:
  "\<not> (\<exists>sc s'. predict (\<lambda>s idx. ((1 :: int, 0 :: int), s)) (built 2147483649) () [] = Some (sc, s')
          \<and> sum_list sc = 1)"
  by (simp add: predict_def predict_pass_overflow)

lemma score_logged_scenario:
  "score_internal_nodes (logged scenario) 3 0 [] ((), []) =
     Some ([(0.6, 0.4), (0.3, 0.7), (0.9, 0.1)], (), [0, 1, 2])"
  using score_internal_nodes_eq [of 3 0 "logged scenario" "[]" "((), [])"]
  by (simp add: logged_def scenario_def INT_MAX_def upt_rec)

lemma predict_logged_scenario:
  "predict (logged scenario) (built 4) ((), []) scores0 =
     Some ([0.54, 0.36, 0.03, 0.07], (), [0, 1, 2])"
proof -
  from resize_4 [of scores0] obtain a b c d where r: "resize 4 scores0 = [a, b, c, d]" by blast
  show ?thesis
    by (simp add: predict_def predict_pass_def leaf_node_count_def internal_node_count_def u32_def
        built_4 score_logged_scenario visit_node_def update_child_def helper_get_def Let_def r)
qed

text \<open>C4 at the scenario of four leaves: three calls, for the indices 0, 1 and 2.\<close>

theorem predict_scorer_calls_witness:
  "(4::nat) \<le> 2147483648 \<and> internal_node_count (built 4) = 3 \<and>
   predict (logged scenario) (built 4) ((), []) [] = Some ([0.54, 0.36, 0.03, 0.07], (), [0, 1, 2])"
proof -
  have h: "(4::nat) \<le> 2147483648" by simp
  from predict_scorer_calls [OF h, of scenario "()" "[]"]
  have "internal_node_count (built 4) = 3" by simp
  with h predict_logged_scenario [of "[]"] show ?thesis by blast
qed

text \<open>
  C4 as stated, for every leaf count, fails at the leaf count \<open>2^31 + 1\<close>:
  \<open>internal_node_count\<close> is \<open>2^31\<close>, and the call of \<open>predict\<close> does not return the
  recorded calls; it runs into the increment of \<open>INT_MAX\<close>.
\<close>

theorem predict_calls_beyond_int:
  "internal_node_count (built 2147483649) = 2147483648 \<and>
   predict (logged (\<lambda>s idx. ((1 :: int, 0 :: int), s))) (built 2147483649) ((), []) [] = None"
  by (simp add: predict_def predict_pass_overflow internal_node_count_built)

text \<open>C10 at the scenario of four leaves, the thread-local vector holding five stale scores.\<close>

theorem predict_assigns_each_score_once_witness:
  "(2::nat) \<le> 4 \<and> (4::nat) \<le> 2147483648 \<and>
   predict_pass scenario (built 4) () [9, 9, 9, 9, 9] =
     Some (\<lparr>buffer = [(0.54, 0.36), (0.03, 0.07), (0.9, 0.1)],
            scores = [0.54, 0.36, 0.03, 0.07], assigned = [2, 3, 0, 1]\<rparr>, ()) \<and>
   predict scenario (built 4) () [] = predict scenario (built 4) () [9, 9, 9, 9, 9]"
proof -
  have h: "(2::nat) \<le> 4" "(4::nat) \<le> 2147483648" by simp_all
  have "\<exists>r. \<forall>scores1. predict scenario (built 4) () scores1 = r"
    using predict_assigns_each_score_once [OF h, of scenario "()" "[9, 9, 9, 9, 9]"]
    by (elim exE conjE) (rule exI)
  then obtain r where "\<And>scores1. predict scenario (built 4) () scores1 = r" by (elim exE) simp
  then have eq: "predict scenario (built 4) () [] = predict scenario (built 4) () [9, 9, 9, 9, 9]"
    by (simp only:)
  show ?thesis
    by (intro conjI h eq predict_pass_scenario)
qed

text \<open>
  C10 as stated, for every leaf count from 2 on, fails at the leaf count \<open>2^31 + 1\<close>: the
  reverse pass is never reached and ends in no state, so that no score is assigned.
\<close>

theorem predict_assigns_nothing_beyond_int:
  "predict_pass (\<lambda>s idx. ((1 :: int, 0 :: int), s)) (built 2147483649) () [] = None"
  by (simp add: predict_pass_overflow)

text \<open>
  Nothing is normalized: with the answer \<open>(2, 3)\<close> at the one internal node of the tree
  of two leaves, the scores are 2 and 3.
\<close>

lemma predict_does_not_normalize:
  "predict (\<lambda>s idx. ((2 :: int, 3 :: int), s)) (built 2) () [] = Some ([2, 3], ())"
proof -
  have "score_internal_nodes (\<lambda>s idx. ((2 :: int, 3 :: int), s)) 1 0 [] () = Some ([(2, 3)], ())"
    using score_internal_nodes_eq [of 1 0 "\<lambda>s idx. ((2 :: int, 3 :: int), s)" "[]" "()"]
    by (simp add: INT_MAX_def)
  moreover have "resize 2 [] = [0, 0 :: int]"
    by (simp add: resize_def numeral_2_eq_2)
  ultimately show ?thesis
    by (simp add: predict_def predict_pass_def leaf_node_count_def internal_node_count_def u32_def
        built_2 visit_node_def update_child_def helper_get_def Let_def)
qed

section \<open>Rounded products at three leaves\<close>








lemma run_nearly_one:
  "run_scorer nearly_one () [0..<3 - 1] =
     ([(B32 16777215 (- 24), B32 1 (- 24)), (B32 16777215 (- 24), B32 1 (- 24))], ())"
  by (simp add: nearly_one_def upt_rec)

lemma predict_nearly_one:
  "predict nearly_one (built 3) () [] =
     Some ([B32 16777214 (- 24), B32 16777215 (- 48), B32 1 (- 24)], ())"
proof -
  have "score_internal_nodes nearly_one 2 0 [] () =
      Some ([(B32 16777215 (- 24), B32 1 (- 24)), (B32 16777215 (- 24), B32 1 (- 24))], ())"
    using score_internal_nodes_eq [of 2 0 nearly_one "[]" "()"] run_nearly_one
    by (simp add: INT_MAX_def)
  moreover have "resize 3 [] = [0, 0, 0 :: binary32]"
    by (simp add: resize_def numeral_3_eq_3)
  ultimately show ?thesis
    by (simp add: predict_def predict_pass_def leaf_node_count_def internal_node_count_def u32_def
        built_3 visit_node_def update_child_def helper_get_def Let_def
        round24_def bits.simps round_even_div_def)
qed



text \<open>
  Nor do probabilities help: with the answer \<open>(1 - 2^-24, 2^-24)\<close> for both internal
  nodes, the product \<open>(1 - 2^-24) \<times> (1 - 2^-24)\<close> is rounded to \<open>1 - 2^-23\<close>, and the
  values of the scores add up to \<open>1 - 2^-48\<close>.
\<close>

lemma predict_rounded_probabilities:
  "val32 (B32 16777215 (- 24)) + val32 (B32 1 (- 24)) = 1 \<and>
   0 < val32 (B32 1 (- 24)) \<and> 0 < val32 (B32 16777215 (- 24)) \<and>
   predict nearly_one (built 3) () [] =
     Some ([B32 16777214 (- 24), B32 16777215 (- 48), B32 1 (- 24)], ()) \<and>
   sum_list (map val32 [B32 16777214 (- 24), B32 16777215 (- 48), B32 1 (- 24)]) = 1 - 1 / 2 ^ 48"
  by (simp add: predict_nearly_one val32_def)

section \<open>The depth of the tree\<close>

lemma forest_bounded:
  assumes f: "forest k ns ts" and k: "k \<le> 2147483648"
  shows "\<And>i. i < length ns \<Longrightarrow> \<not> is_leaf (ns ! i) \<Longrightarrow> left_id (ns ! i) < i \<and> right_id (ns ! i) < i"
    and "\<And>a. a \<in> set ts \<Longrightarrow> a < length ns"
proof -
  from f have len: "length ns + length ts = 2 * k" by (simp add: forest_def)
  with k have small: "length ns \<le> 4294967296" by simp
  have id: "u32 j = j" if "j < length ns" for j
    using that small by (intro u32_small) simp
  show "left_id (ns ! i) < i \<and> right_id (ns ! i) < i" if i: "i < length ns" "\<not> is_leaf (ns ! i)" for i
  proof -
    from f i have "left_id (ns ! i) \<in> u32 ` {..<i}" "right_id (ns ! i) \<in> u32 ` {..<i}"
      by (simp_all add: forest_def)
    moreover have "u32 j = j" if "j < i" for j using that i(1) id by simp
    ultimately show ?thesis by auto
  qed
  show "a < length ns" if "a \<in> set ts" for a
    using forest_tournaments_small [OF f that] id by auto
qed

lemma follow_append:
  assumes closed: "\<And>i. i < length ns \<Longrightarrow> \<not> is_leaf (ns ! i) \<Longrightarrow>
      left_id (ns ! i) < i \<and> right_id (ns ! i) < i"
    and a: "a < length ns"
  shows "follow (ns @ new) a steps = follow ns a steps"
  using a
proof (induction steps arbitrary: a)
  case Nil
  show ?case by simp
next
  case (Cons x steps)
  obtain n d where x: "x = (n, d)" by (cases x)
  show ?case
  proof (cases "n = a \<and> \<not> is_leaf (ns ! a)")
    case True
    with closed [OF Cons.prems] have "child d (ns ! a) < a" by (cases d) simp_all
    with Cons.prems have "child d (ns ! a) < length ns" by simp
    from Cons.IH [OF this] True Cons.prems show ?thesis by (simp add: x nth_append)
  next
    case False
    with Cons.prems show ?thesis by (auto simp: x nth_append)
  qed
qed

lemma depth_round:
  assumes f: "forest k ns ts" and k: "k \<le> 2147483648" and big: "1 < length ts"
    and inv: "depth_inv k ns ts h"
  defines "m \<equiv> length ts div 2"
  defines "new \<equiv> map (\<lambda>j. mk_tree_node (length ns + j) (ts ! (2 * j)) (ts ! (2 * j + 1)) False) [0..<m]"
  defines "nts \<equiv> map (\<lambda>j. u32 (length ns + j)) [0..<m]"
  shows "depth_inv k (ns @ new) (if length ts mod 2 = 1 then nts @ [last ts] else nts) (Suc h)"
proof -
  define ts' where "ts' = (if length ts mod 2 = 1 then nts @ [last ts] else nts)"
  note closed = forest_bounded(1) [OF f k]
  note inside = forest_bounded(2) [OF f k]
  from f have len: "length ns + length ts = 2 * k" by (simp add: forest_def)
  from big have m1: "1 \<le> m" and m2: "2 * m \<le> length ts" by (simp_all add: m_def)
  have small: "u32 (length ns + j) = length ns + j" if "j < m" for j
    using that m2 len k by (intro u32_small) simp
  have fixed: "u32 x = x" if "x \<in> set ts" for x
    using forest_tournaments_small [OF f that] by auto
  have old: "follow (ns @ new) a steps = follow ns a steps" if "a < length ns" for a steps
    using closed that by (rule follow_append)
  have new_nth: "(ns @ new) ! (length ns + j) =
      mk_tree_node (length ns + j) (ts ! (2 * j)) (ts ! (2 * j + 1)) False" if "j < m" for j
    using that by (simp add: new_def nth_append)
  have new_j: "new ! j =
      mk_tree_node (length ns + j) (ts ! (2 * j)) (ts ! (2 * j + 1)) False" if "j < m" for j
    using that by (simp add: new_def)
  have child_new: "child d ((ns @ new) ! (length ns + j)) \<in> set ts" if j: "j < m" for j d
  proof -
    from j m2 have "ts ! (2 * j) \<in> set ts" "ts ! (2 * j + 1) \<in> set ts" by simp_all
    then show ?thesis
      using fixed by (cases d) (simp_all add: new_j [OF j] mk_tree_node_def)
  qed
  from inv have bound: "\<And>a steps c. a \<in> set ts \<Longrightarrow> follow ns a steps = Some c \<Longrightarrow> length steps \<le> h"
    and deep: "\<exists>steps c. follow ns (hd ts) steps = Some c \<and> c < k \<and> length steps = h"
    by (auto simp: depth_inv_def)
  have b_old: "length steps \<le> Suc h" if "a \<in> set ts" "follow (ns @ new) a steps = Some c" for a steps c
    using bound [OF that(1), of steps c] that old [OF inside [OF that(1)]] by simp
  have b_new: "length steps \<le> Suc h" if j: "j < m" and fl: "follow (ns @ new) (length ns + j) steps = Some c"
    for j steps c
  proof (cases steps)
    case Nil
    then show ?thesis by simp
  next
    case (Cons x rest)
    obtain n d where x: "x = (n, d)" by (cases x)
    from fl have "follow (ns @ new) (child d ((ns @ new) ! (length ns + j))) rest = Some c"
      by (simp add: Cons x split: if_splits)
    with child_new [OF j, of d] b_old have "length rest \<le> h"
      using bound old inside by metis
    then show ?thesis by (simp add: Cons)
  qed
  have mem: "a \<in> set ts \<or> (\<exists>j<m. a = length ns + j)" if "a \<in> set ts'" for a
  proof -
    from that have "a \<in> set nts \<or> a = last ts" by (auto simp: ts'_def split: if_splits)
    moreover have "last ts \<in> set ts" using big by (intro last_in_set) auto
    moreover have "\<exists>j<m. a = length ns + j" if "a \<in> set nts"
    proof -
      from that have "a \<in> (\<lambda>j. u32 (length ns + j)) ` {0..<m}"
        by (simp only: nts_def set_map set_upt)
      then obtain j where "j < m" "a = u32 (length ns + j)" by (elim imageE) simp
      with small [of j] show ?thesis by auto
    qed
    ultimately show ?thesis by blast
  qed
  have p1: "length steps \<le> Suc h" if "a \<in> set ts'" "follow (ns @ new) a steps = Some c" for a steps c
    using mem [OF that(1)] b_old [of a steps c] b_new [of _ steps c] that(2) by blast
  from deep obtain steps0 c0 where d0: "follow ns (hd ts) steps0 = Some c0" "c0 < k" "length steps0 = h"
    by blast
  from big have ne: "ts \<noteq> []" by auto
  then have hd0: "hd ts = ts ! 0" by (simp add: hd_conv_nth)
  from m1 have "nts \<noteq> []" "hd nts = u32 (length ns)"
    by (simp_all add: nts_def hd_map upt_rec)
  then have hd': "hd ts' = length ns" using small [of 0] m1 by (simp add: ts'_def)
  from m1 have j0: "0 < m" by simp
  have first: "(ns @ new) ! length ns = mk_tree_node (length ns) (ts ! 0) (ts ! 1) False"
    using new_nth [OF j0] by simp
  have "left_id ((ns @ new) ! (length ns)) = hd ts"
    using fixed [of "ts ! 0"] ne hd0 by (simp add: first mk_tree_node_def)
  moreover have "\<not> is_leaf ((ns @ new) ! (length ns))"
    by (simp add: first mk_tree_node_def)
  moreover have "length ns < length (ns @ new)" using m1 by (simp add: new_def)
  moreover have "hd ts < length ns" using inside ne by simp
  ultimately have "follow (ns @ new) (length ns) ((length ns, GoLeft) # steps0) = Some c0"
    using d0(1) old [of "hd ts" steps0] by simp
  with d0(2,3) hd' have p2: "\<exists>steps c. follow (ns @ new) (hd ts') steps = Some c \<and> c < k \<and>
      length steps = Suc h"
    by (intro exI [of _ "(length ns, GoLeft) # steps0"] exI [of _ c0]) simp
  have "depth_inv k (ns @ new) ts' (Suc h)"
    unfolding depth_inv_def using p1 p2 by blast
  then show ?thesis by (simp only: ts'_def)
qed

lemma tournament_rounds_depth:
  assumes "forest k ns ts" and "k \<le> 2147483648" and "depth_inv k ns ts h"
    and "tournament_rounds mem r ns ts = (True, ns', ts')"
  shows "\<exists>h'. depth_inv k ns' ts' h' \<and> int h' = int h + \<lceil>log 2 (real (length ts))\<rceil>"
  using assms
proof (induction mem r ns ts arbitrary: h rule: tournament_rounds.induct)
  case (1 mem r ns ts)
  show ?case
  proof (cases "1 < length ts")
    case False
    moreover from "1.prems"(1) have "ts \<noteq> []" by (simp add: forest_def)
    ultimately have l1: "length ts = 1" by (cases ts) auto
    with "1.prems"(4) have "ns' = ns" "ts' = ts" by (simp_all add: tournament_rounds.simps)
    with "1.prems"(3) l1 show ?thesis by auto
  next
    case True
    define m where "m = length ts div 2"
    define new where "new = map (\<lambda>j. mk_tree_node (length ns + j) (ts ! (2 * j)) (ts ! (2 * j + 1)) False) [0..<m]"
    define nts where "nts = map (\<lambda>j. u32 (length ns + j)) [0..<m]"
    define ts1 where "ts1 = (if length ts mod 2 = 1 then nts @ [last ts] else nts)"
    have pt: "pair_tournaments ts (length ns, ns, []) = (length ns + m, ns @ new, nts)"
      by (simp add: pair_tournaments_eq m_def new_def nts_def)
    have granted: "mem r"
      using "1.prems"(4) True by (subst (asm) tournament_rounds.simps) (simp split: if_splits)
    have rec: "tournament_rounds mem (r + 1) (ns @ new) ts1 = (True, ns', ts')"
      using "1.prems"(4) True granted pt
      by (subst (asm) tournament_rounds.simps) (simp add: ts1_def)
    have f1: "forest k (ns @ new) ts1"
      unfolding new_def nts_def m_def ts1_def by (rule forest_round [OF "1.prems"(1) True])
    have d1: "depth_inv k (ns @ new) ts1 (Suc h)"
      unfolding new_def nts_def m_def ts1_def
      by (rule depth_round [OF "1.prems"(1,2) True "1.prems"(3)])
    from "1.IH" [OF True granted pt [symmetric] refl f1 [unfolded ts1_def] "1.prems"(2)
        d1 [unfolded ts1_def] rec [unfolded ts1_def]]
    obtain h' where h': "depth_inv k ns' ts' h'"
      "int h' = int (Suc h) + \<lceil>log 2 (real (length ts1))\<rceil>"
      unfolding ts1_def by blast
    have "length ts1 = length ts - length ts div 2"
      unfolding ts1_def nts_def m_def by (rule length_next_round)
    also have "\<dots> = (length ts - 1) div 2 + 1" using True by presburger
    finally have "\<lceil>log 2 (real (length ts))\<rceil> = \<lceil>log 2 (real (length ts1))\<rceil> + 1"
      using ceiling_log2_div2 [of "length ts"] True by simp
    with h' show ?thesis by auto
  qed
qed

lemma depth_leaves:
  assumes "0 < k"
  shows "depth_inv k (map (\<lambda>i. mk_tree_node i 0 0 True) [0..<k]) [0..<k] 0"
proof -
  let ?ns = "map (\<lambda>i. mk_tree_node i 0 0 True) [0..<k]"
  have "steps = []" if "a < k" "follow ?ns a steps = Some c" for a steps c
    using that by (cases steps) (auto simp: mk_tree_node_def split: if_splits)
  moreover have "follow ?ns (hd [0..<k]) [] = Some 0" using assms by (simp add: upt_rec)
  ultimately show ?thesis
    unfolding depth_inv_def using assms 
    by (auto intro!: exI [of _ "[]"])
qed

lemma built_depth:
  assumes k: "1 \<le> k" "k \<le> 2147483648"
  shows "\<exists>h. depth_inv k (nodes (built k)) [root_idx (built k)] h \<and> int h = \<lceil>log 2 (real k)\<rceil>"
proof -
  let ?lv = "map (\<lambda>i. mk_tree_node i 0 0 True) [0..<k]"
  from k have k0: "0 < k" and k': "k \<le> 4294967296" by simp_all
  obtain b ns' ts' where tr: "tournament_rounds (\<lambda>_. True) 2 ?lv [0..<k] = (b, ns', ts')"
    by (cases "tournament_rounds (\<lambda>_. True) 2 ?lv [0..<k]") auto
  from tournament_rounds_granted [of "\<lambda>_. True" 2 ?lv "[0..<k]"] tr have b: b by simp
  from k0 tr b have t: "built k = \<lparr>nodes = ns', root_idx = ts' ! 0, num_leaf_nodes = k, initialized = True\<rparr>"
    by (simp add: built_def build_tree_def fresh_tree_def add_leaf_nodes_eq Let_def)
  from tournament_rounds_forest [OF forest_leaves [OF k' k0]] tr b
  have "length ts' = 1" by auto
  then have ts': "ts' = [ts' ! 0]" by (cases ts') auto
  from tr b have tr': "tournament_rounds (\<lambda>_. True) 2 ?lv [0..<k] = (True, ns', ts')" by simp
  from tournament_rounds_depth [OF forest_leaves [OF k' k0] k(2) depth_leaves [OF k0] tr']
  obtain h where "depth_inv k ns' ts' h" "int h = int 0 + \<lceil>log 2 (real (length [0..<k]))\<rceil>"
    by blast
  with ts' t show ?thesis by (metis length_upt diff_zero of_nat_0 add_0 min_depth_binary_tree.select_convs(1,2))
qed

text \<open>
  C5, amended. For every leaf count \<open>k\<close> with \<open>1 \<le> k \<le> 2^31\<close>, power of two or not, the
  greatest number of edges from the root to a leaf of the built tree is the ceiling of
  \<open>log2 k\<close>: no path from the root to a leaf has more steps, and the path to some leaf has
  exactly as many.
\<close>

theorem build_tree_depth:
  assumes "1 \<le> k" and "k \<le> 2147483648"
  shows "(\<forall>i<k. \<forall>steps. follow (nodes (built k)) (root_idx (built k)) steps = Some i \<longrightarrow>
            int (length steps) \<le> \<lceil>log 2 (real k)\<rceil>) \<and>
         (\<exists>i<k. \<exists>steps. follow (nodes (built k)) (root_idx (built k)) steps = Some i \<and>
            int (length steps) = \<lceil>log 2 (real k)\<rceil>)"
proof -
  from built_depth [OF assms] obtain h where
    h: "depth_inv k (nodes (built k)) [root_idx (built k)] h" "int h = \<lceil>log 2 (real k)\<rceil>"
    by blast
  from h(1) have "\<forall>steps c. follow (nodes (built k)) (root_idx (built k)) steps = Some c \<longrightarrow> length steps \<le> h"
    and "\<exists>steps c. follow (nodes (built k)) (root_idx (built k)) steps = Some c \<and> c < k \<and> length steps = h"
    by (simp_all add: depth_inv_def)
  with h(2) show ?thesis by (metis of_nat_le_iff)
qed

lemma follow_5:
  "follow (nodes (built 5)) (root_idx (built 5)) [(8, GoLeft), (7, GoLeft), (5, GoLeft)] = Some 0"
  "follow (nodes (built 5)) (root_idx (built 5)) [(8, GoRight)] = Some 4"
  by (simp_all add: built_5)

text \<open>C5, amended, at five leaves: the ceiling of \<open>log2 5\<close> is 3, the depth of leaf 0.\<close>

theorem build_tree_depth_witness:
  "(1::nat) \<le> 5 \<and> (5::nat) \<le> 2147483648 \<and> \<lceil>log 2 (real 5)\<rceil> = 3 \<and>
   follow (nodes (built 5)) (root_idx (built 5)) [(8, GoLeft), (7, GoLeft), (5, GoLeft)] = Some 0 \<and>
   int (length [(8 :: nat, GoLeft), (7, GoLeft), (5, GoLeft)]) \<le> \<lceil>log 2 (real 5)\<rceil>"
proof -
  have h: "(1::nat) \<le> 5" "(5::nat) \<le> 2147483648" by simp_all
  have l: "\<lceil>log 2 (real 5)\<rceil> = 3"
    using ceiling_log_nat_eq_if [of 2 2 5] by simp
  from build_tree_depth [OF h] follow_5(1)
  have "int (length [(8 :: nat, GoLeft), (7, GoLeft), (5, GoLeft)]) \<le> \<lceil>log 2 (real 5)\<rceil>"
    by (metis (no_types, lifting) zero_less_numeral)
  with h l follow_5(1) show ?thesis by (intro conjI)
qed

text \<open>
  C5 as stated fails at five leaves: the last leaf is carried forward through two rounds and
  becomes a child of the root, so that leaf 4 is one edge from the root and leaf 0 three.
\<close>

theorem build_tree_depths_differ_by_two:
  "\<not> (\<forall>i j si sj. i < 5 \<and> j < 5 \<and>
         follow (nodes (built 5)) (root_idx (built 5)) si = Some i \<and>
         follow (nodes (built 5)) (root_idx (built 5)) sj = Some j
         \<longrightarrow> length si \<le> length sj + 1)"
proof
  assume a: "\<forall>i j si sj. i < 5 \<and> j < 5 \<and>
         follow (nodes (built 5)) (root_idx (built 5)) si = Some i \<and>
         follow (nodes (built 5)) (root_idx (built 5)) sj = Some j
         \<longrightarrow> length si \<le> length sj + 1"
  have "length [(8 :: nat, GoLeft), (7, GoLeft), (5, GoLeft)] \<le> length [(8 :: nat, GoRight)] + 1"
    using follow_5 by (intro a [rule_format, of 0 4]) simp
  then show False by simp
qed

end
